theory Spec2Isabelle
  imports Complex_Main "HOL-Library.Word" "HOL-Library.Log_Nat"
begin

section \<open>Single-precision arithmetic\<close>

text \<open>
  \<^verbatim>\<open>getAttenuation\<close> (src/src/main.cpp, lines 458 to 477) computes in C++
  \<^verbatim>\<open>float\<close>. A finite \<^verbatim>\<open>float\<close> is modelled by the rational number it denotes,
  and every arithmetic operation by the exact operation followed by rounding to the nearest
  number with a 24-bit significand, a tie going to the even significand (IEEE 754 binary32
  with its default rounding; every operation of the function is a single-precision
  operation, rounded on its own). The exponent range is left unbounded. For a size of the
  large steps between 1 and 4, the rounded values are sums, differences, products and
  quotients of integers below 1024 and of their roundings, far from underflow and overflow;
  a larger size is rejected by the test of line 465 whatever the other operands are, and
  the two negative sizes that can arise (-1 and the smallest \<^verbatim>\<open>long\<close>, both
  outside the domain of a profile) stay far from underflow and overflow as well.
  Infinities and NaN arise only from a division by zero; those places are written out in
  the model.
\<close>

definition expo :: "rat \<Rightarrow> int" where
  \<comment> \<open>the binary exponent of a non-zero number: \<open>2 powi expo x \<le> \<bar>x\<bar> < 2 powi (expo x + 1)\<close>\<close>
  "expo x = (let a = \<bar>x\<bar>; d = bitlen (fst (quotient_of a)) - bitlen (snd (quotient_of a))
             in if 2 powi d \<le> a then d else d - 1)"

definition round_even :: "rat \<Rightarrow> int" where
  \<comment> \<open>the nearest integer, a tie going to the even one\<close>
  "round_even y = (let n = \<lfloor>y\<rfloor>; r = y - of_int n
                   in if r < 1 / 2 then n else if 1 / 2 < r then n + 1
                      else if even n then n else n + 1)"

definition fl :: "rat \<Rightarrow> rat" where
  \<comment> \<open>rounding to binary32: the unit in the last place of \<open>x\<close> is \<open>2 powi (expo x - 23)\<close>\<close>
  "fl x = (if x = 0 then 0
           else let u = 2 powi (expo x - 23) in of_int (round_even (x / u)) * u)"

definition fadd :: "rat \<Rightarrow> rat \<Rightarrow> rat" where
  "fadd a b = fl (a + b)"

definition fsub :: "rat \<Rightarrow> rat \<Rightarrow> rat" where
  "fsub a b = fl (a - b)"

definition fmul :: "rat \<Rightarrow> rat \<Rightarrow> rat" where
  "fmul a b = fl (a * b)"

definition fdiv :: "rat \<Rightarrow> rat \<Rightarrow> rat" where
  \<comment> \<open>used with a non-zero divisor only\<close>
  "fdiv a b = fl (a / b)"

text \<open>
  The Arduino core defines \<^verbatim>\<open>min\<close> and \<^verbatim>\<open>max\<close> as macros,
  \<^verbatim>\<open>((a)<(b)?(a):(b))\<close> and \<^verbatim>\<open>((a)>(b)?(a):(b))\<close>; with one \<^verbatim>\<open>float\<close>
  operand the comparison and the result are \<^verbatim>\<open>float\<close>.
\<close>

definition min_macro :: "rat \<Rightarrow> rat \<Rightarrow> rat" where
  "min_macro a b = (if a < b then a else b)"

definition max_macro :: "rat \<Rightarrow> rat \<Rightarrow> rat" where
  "max_macro a b = (if a > b then a else b)"

text \<open>
  Returning a \<^verbatim>\<open>float\<close> from a function of type \<^verbatim>\<open>uint8_t\<close> converts it: the
  fraction is discarded (truncation towards zero). A value outside 0..255 has no defined
  result in C++; the model keeps the low byte of the truncated integer, which is what the
  AVR, ARM and x86 code generators produce for the values that occur here.
\<close>

definition trunc :: "rat \<Rightarrow> int" where
  "trunc x = (if 0 \<le> x then \<lfloor>x\<rfloor> else \<lceil>x\<rceil>)"

definition float_to_uint8 :: "rat \<Rightarrow> 8 word" where
  "float_to_uint8 x = word_of_int (trunc x)"

section \<open>The attenuation mapping\<close>

text \<open>
  Line 462, \<^verbatim>\<open>round(pow(2.0, att_dB / steps) - 0.5)\<close>. The library function
  \<^verbatim>\<open>pow\<close> is not part of the repository. The line is modelled by its mathematical
  value: for \<open>att_dB \<ge> 0\<close> and \<open>steps > 0\<close> the power \<open>p = 2 powr (att_dB / steps)\<close> is
  at least 1, and rounding \<open>p - 0.5\<close> to the nearest integer (halves away from zero, both
  for the C function and for the Arduino macro \<^verbatim>\<open>(long)(x + 0.5)\<close>) gives the integer
  part of \<open>p\<close>, that is the largest \<open>n\<close> with \<open>n ^ steps \<le> 2 ^ att_dB\<close>
  (\<open>sizeOfLargeSteps_coarseStepSize\<close> below relates the two). This takes \<^verbatim>\<open>pow\<close> to
  be exact where the power is an integer and accurate enough elsewhere not to cross an
  integer. Only the position of the power relative to 2, 3, 4 and 5 matters, since a size
  above 4 is rejected whatever its value; for operands below 256 a power other than these
  four differs from each of them by more than \<open>3 / 10\<^sup>5\<close> of its value, hundreds of
  units in the last place. Where the power exceeds the range of \<^verbatim>\<open>long\<close> the
  conversion inside the macro has no defined result in C++; the largest \<^verbatim>\<open>long\<close>
  is above 4 as well, and the smallest one makes the number of small steps twice the
  number of steps, so that the function returns 223 as it does in the model.
  \<open>root_search\<close> finds \<open>n\<close> by bisection.
\<close>

function root_search :: "nat \<Rightarrow> nat \<Rightarrow> int \<Rightarrow> int \<Rightarrow> int" where
  "root_search a s lo hi =
     (if hi \<le> lo + 1 then lo
      else let mid = (lo + hi) div 2
           in if mid ^ s \<le> 2 ^ a then root_search a s mid hi else root_search a s lo mid)"
  by pat_completeness auto
termination
  by (relation "measure (\<lambda>(a, s, lo, hi). nat (hi - lo))") auto

text \<open>
  The remaining cases of line 462, with the Arduino macro
  \<^verbatim>\<open>round(x) = ((x)>=0?(long)((x)+0.5):(long)((x)-0.5))\<close> and \<^verbatim>\<open>double\<close>
  taken as IEEE 754 binary64.

  For \<open>att_dB < 0\<close> and \<open>steps > 0\<close> the power \<open>p\<close> lies strictly between 0 and 1. When
  \<open>p \<ge> 0.5\<close> the macro yields \<open>(long) p = 0\<close>. When \<open>p < 0.5\<close> it yields
  \<open>(long) ((p - 0.5) - 0.5)\<close>, both subtractions rounded: this is \<open>-1\<close> when the
  difference rounds to \<open>-1.0\<close>, which happens for \<open>p < 3 / 2 ^ 55\<close>, and 0 otherwise.
  With \<open>p = 2 powr (att_dB / steps)\<close> the condition \<open>p < 3 / 2 ^ 55\<close> is
  \<open>2 ^ (att_dB + 55 * steps) < 3 ^ steps\<close>, which holds when the exponent on the left is
  negative. (Where \<^verbatim>\<open>double\<close> has 32 bits, as with avr-gcc, the bound is
  \<open>3 / 2 ^ 26\<close>, and 26 takes the place of 55.)

  For \<open>steps = 0\<close> the quotient is a division by zero. When \<open>att_dB < 0\<close> it is
  \<open>-\<infinity>\<close>, the power is 0, and \<open>(long) (-0.5 - 0.5) = -1\<close>. When \<open>att_dB > 0\<close>
  it is \<open>+\<infinity>\<close> and so is the power; its conversion to \<^verbatim>\<open>long\<close> has no defined
  result in C++, and no size is given (\<open>None\<close>): the largest \<^verbatim>\<open>long\<close> is above 4,
  the smallest one makes the number of small steps positive, hence above the 0 steps, and
  the function returns 223 in both cases. When \<open>att_dB = 0\<close> the quotient is NaN, the
  comparison of the macro fails and a NaN is converted to \<^verbatim>\<open>long\<close>, again without a
  defined result in C++; the model takes the smallest 64-bit \<^verbatim>\<open>long\<close>, the result of
  the conversion instruction of x86-64. Any negative size gives the same results there; a
  platform that converts NaN to 0 returns 223 instead.
\<close>

definition sizeOfLargeSteps :: "int \<Rightarrow> nat \<Rightarrow> int option" where
  "sizeOfLargeSteps att_dB steps =
     (if steps = 0
      then (if att_dB < 0 then Some (- 1) else if att_dB = 0 then Some (- (2 ^ 63)) else None)
      else if att_dB < 0
      then (if att_dB + 55 * int steps < 0 \<or> 2 ^ nat (att_dB + 55 * int steps) < (3::int) ^ steps
            then Some (- 1) else Some 0)
      else Some (root_search (nat att_dB) steps 1 (2 ^ nat att_dB + 1)))"

text \<open>
  Line 463,
  \<^verbatim>\<open>(sizeOfLargeSteps * steps - att_dB) / (sizeOfLargeSteps / 2)\<close>, for a non-zero
  size.
\<close>

definition numberOfSmallSteps :: "rat \<Rightarrow> rat \<Rightarrow> rat \<Rightarrow> rat" where
  "numberOfSmallSteps large steps att_dB = fdiv (fsub (fmul large steps) att_dB) (fdiv large 2)"

text \<open>
  Line 471, the expression that is returned when the profile is feasible, before its
  conversion to \<^verbatim>\<open>uint8_t\<close>.
\<close>

definition attenuation :: "rat \<Rightarrow> rat \<Rightarrow> rat \<Rightarrow> rat \<Rightarrow> rat" where
  "attenuation large small selStep max_dB =
     fmul (fsub max_dB
             (fadd (fmul (min_macro selStep small) (fdiv large 2))
                   (fmul (max_macro (fsub selStep small) 0) large)))
          2"

text \<open>
  The function. \<^verbatim>\<open>max_dB - min_dB\<close> is computed in \<^verbatim>\<open>int\<close> (integer promotion)
  and converted exactly. When the size is 0 (only for \<open>att_dB < 0\<close>) line 463 divides the
  positive \<open>- att_dB\<close> by zero, the number of small steps is \<open>+\<infinity>\<close> and the test
  \<^verbatim>\<open>steps >= numberOfSmallSteps\<close> fails. When no size is given (\<open>steps = 0\<close> and
  \<open>att_dB > 0\<close>) the function returns 223, as explained above. A negative size goes
  through lines 463 to 471 like a positive one. No global variable occurs in the function.
\<close>

definition getAttenuation :: "8 word \<Rightarrow> 8 word \<Rightarrow> 8 word \<Rightarrow> 8 word \<Rightarrow> 8 word" where
  "getAttenuation steps selStep min_dB max_dB =
     (let att_dB = uint max_dB - uint min_dB
      in case sizeOfLargeSteps att_dB (unat steps) of
           None \<Rightarrow> 223
         | Some sz \<Rightarrow>
             if sz = 0 then 223
             else let small = numberOfSmallSteps (of_int sz) (of_int (uint steps)) (of_int att_dB)
                  in if small \<le> of_int (uint steps) \<and> selStep \<le> steps \<and> sz \<le> 4
                     then float_to_uint8
                            (attenuation (of_int sz) small (of_int (uint selStep))
                               (of_int (uint max_dB)))
                     else 223)"

section \<open>The profile as the specification derives it\<close>

text \<open>
  The derived quantities in the specification's words, over the real and the rational
  numbers: \<open>coarseStepSize = round(2^(rangeDb/steps) - 0.5)\<close>,
  \<open>fineStepCount = (coarseStepSize*steps - rangeDb) / (coarseStepSize/2)\<close> and the
  result of step 5.
\<close>

definition coarseStepSize :: "int \<Rightarrow> nat \<Rightarrow> int" where
  "coarseStepSize rangeDb steps = round (2 powr (real_of_int rangeDb / real steps) - 1 / 2)"

definition fineStepCount :: "int \<Rightarrow> int \<Rightarrow> int \<Rightarrow> rat" where
  "fineStepCount coarse steps rangeDb =
     (of_int coarse * of_int steps - of_int rangeDb) / (of_int coarse / 2)"

definition spec_result :: "int \<Rightarrow> rat \<Rightarrow> int \<Rightarrow> int \<Rightarrow> rat" where
  "spec_result coarse fine selStep max_dB =
     (of_int max_dB
        - (min (of_int selStep) fine * (of_int coarse / 2)
           + max (of_int selStep - fine) 0 * of_int coarse)) * 2"

section \<open>Properties of the rounding\<close>

text \<open>
  The exponent brackets its argument and is determined by that; the rounding \<open>fl\<close> is odd,
  leaves every number with a 24-bit significand unchanged, is monotone, and moves a number
  below \<open>2 powi k\<close> by at most \<open>2 powi (k - 25)\<close>, half a unit in the last place.
\<close>

lemma expo_bounds:
  assumes "x \<noteq> 0"
  shows "2 powi expo x \<le> \<bar>x\<bar> \<and> \<bar>x\<bar> < 2 powi (expo x + 1)"
proof -
  define a where "a = \<bar>x\<bar>"
  obtain p q where pq: "quotient_of a = (p, q)" by force
  have qpos: "q > 0" using quotient_of_denom_pos[OF pq] .
  have a_eq: "a = of_int p / of_int q" using quotient_of_div[OF pq] .
  have apos: "a > 0" using assms a_def by simp
  have ppos: "p > 0" using apos a_eq qpos by (simp add: zero_less_divide_iff)
  define bp where "bp = bitlen p"
  define bq where "bq = bitlen q"
  define d where "d = bp - bq"
  have bp1: "bp \<ge> 1" using ppos bitlen_eq_zero_iff[of p] bitlen_nonneg[of p] by (simp add: bp_def)
  have bq1: "bq \<ge> 1" using qpos bitlen_eq_zero_iff[of q] bitlen_nonneg[of q] by (simp add: bq_def)
  have p_lo: "(2::rat) powi (bp - 1) \<le> of_int p"
  proof -
    have "(2::int) ^ nat (bp - 1) \<le> p" using bitlen_bounds[OF ppos] by (simp add: bp_def)
    then have "(of_int ((2::int) ^ nat (bp - 1)) :: rat) \<le> of_int p" by (simp only: of_int_le_iff)
    then show ?thesis using bp1 by (simp add: power_int_nonneg_exp)
  qed
  have p_hi: "of_int p < (2::rat) powi bp"
  proof -
    have "p < (2::int) ^ nat bp" using bitlen_bounds[OF ppos] by (simp add: bp_def)
    then have "(of_int p :: rat) < of_int ((2::int) ^ nat bp)" by (simp only: of_int_less_iff)
    then show ?thesis using bp1 by (simp add: power_int_nonneg_exp)
  qed
  have q_lo: "(2::rat) powi (bq - 1) \<le> of_int q"
  proof -
    have "(2::int) ^ nat (bq - 1) \<le> q" using bitlen_bounds[OF qpos] by (simp add: bq_def)
    then have "(of_int ((2::int) ^ nat (bq - 1)) :: rat) \<le> of_int q" by (simp only: of_int_le_iff)
    then show ?thesis using bq1 by (simp add: power_int_nonneg_exp)
  qed
  have q_hi: "of_int q < (2::rat) powi bq"
  proof -
    have "q < (2::int) ^ nat bq" using bitlen_bounds[OF qpos] by (simp add: bq_def)
    then have "(of_int q :: rat) < of_int ((2::int) ^ nat bq)" by (simp only: of_int_less_iff)
    then show ?thesis using bq1 by (simp add: power_int_nonneg_exp)
  qed
  have qr: "(0::rat) < of_int q" using qpos by simp
  have lower: "2 powi (d - 1) < a"
  proof -
    have "(2::rat) powi (d - 1) * of_int q < 2 powi (d - 1) * 2 powi bq"
      using q_hi by simp
    also have "\<dots> = 2 powi (bp - 1)" by (simp add: d_def flip: power_int_add)
    also have "\<dots> \<le> of_int p" by (rule p_lo)
    finally show ?thesis using qr by (simp add: a_eq pos_less_divide_eq)
  qed
  have upper: "a < 2 powi (d + 1)"
  proof -
    have "of_int p < (2::rat) powi bp" by (rule p_hi)
    also have "\<dots> = 2 powi (d + 1) * 2 powi (bq - 1)" by (simp add: d_def flip: power_int_add)
    also have "\<dots> \<le> 2 powi (d + 1) * of_int q" using q_lo by simp
    finally show ?thesis using qr by (simp add: a_eq pos_divide_less_eq)
  qed
  have e: "expo x = (if 2 powi d \<le> a then d else d - 1)"
    by (simp add: expo_def Let_def pq d_def bp_def bq_def flip: a_def)
  show ?thesis
  proof (cases "2 powi d \<le> a")
    case True
    then show ?thesis using upper e by (simp add: a_def)
  next
    case False
    then show ?thesis using lower e by (simp add: a_def)
  qed
qed

lemma pow2_less_D: "(2::rat) powi m < 2 powi n \<Longrightarrow> m < n"
proof (rule ccontr)
  assume lt: "(2::rat) powi m < 2 powi n" and "\<not> m < n"
  then have "n \<le> m" by simp
  then have "(2::rat) powi n \<le> 2 powi m" by (intro power_int_increasing) auto
  with lt show False by simp
qed

lemma expo_unique:
  assumes "2 powi e \<le> \<bar>x\<bar>" "\<bar>x\<bar> < 2 powi (e + 1)"
  shows "expo x = e"
proof -
  have "(0::rat) < 2 powi e" by simp
  then have "0 < \<bar>x\<bar>" using assms(1) by (rule less_le_trans)
  then have x0: "x \<noteq> 0" by simp
  note b = expo_bounds[OF x0]
  have "(2::rat) powi e < 2 powi (expo x + 1)" using assms(1) b by linarith
  then have 1: "e < expo x + 1" by (rule pow2_less_D)
  have "(2::rat) powi expo x < 2 powi (e + 1)" using assms(2) b by linarith
  then have 2: "expo x < e + 1" by (rule pow2_less_D)
  from 1 2 show ?thesis by linarith
qed

lemma expo_minus: "expo (- x) = expo x"
  by (simp add: expo_def)

lemma round_even_of_int: "round_even (of_int k) = k"
  by (simp add: round_even_def)

lemma round_even_near: "\<bar>of_int (round_even y) - y\<bar> \<le> 1 / 2"
proof -
  have b: "of_int \<lfloor>y\<rfloor> \<le> y" "y < of_int \<lfloor>y\<rfloor> + 1" by linarith+
  show ?thesis
    using b unfolding round_even_def Let_def by (simp add: abs_le_iff)
qed

lemma round_even_mono: "x \<le> y \<Longrightarrow> round_even x \<le> round_even y"
proof -
  assume xy: "x \<le> y"
  have fx: "\<lfloor>x\<rfloor> \<le> \<lfloor>y\<rfloor>" using xy by (rule floor_mono)
  have lo: "\<lfloor>y\<rfloor> \<le> round_even y" unfolding round_even_def Let_def by auto
  have hi: "round_even x \<le> \<lfloor>x\<rfloor> + 1" unfolding round_even_def Let_def by auto
  show ?thesis
  proof (cases "\<lfloor>x\<rfloor> = \<lfloor>y\<rfloor>")
    case True
    then show ?thesis using xy unfolding round_even_def Let_def by (simp; linarith)
  next
    case False
    then show ?thesis using fx lo hi by linarith
  qed
qed

lemma floor_minus_nonint: "y \<notin> \<int> \<Longrightarrow> \<lfloor>- y :: rat\<rfloor> = - \<lfloor>y\<rfloor> - 1"
proof -
  assume n: "y \<notin> \<int>"
  have "y \<noteq> of_int \<lfloor>y\<rfloor>" using n Ints_of_int[of "\<lfloor>y\<rfloor>"] by metis
  then show ?thesis by (simp add: floor_minus ceiling_altdef)
qed

lemma round_even_minus: "round_even (- y) = - round_even y"
proof (cases "y \<in> \<int>")
  case True
  then obtain k where "y = of_int k" by (auto elim: Ints_cases)
  then show ?thesis using round_even_of_int[of k] round_even_of_int[of "- k"] by simp
next
  case False
  have b: "of_int \<lfloor>y\<rfloor> \<le> y" "y < of_int \<lfloor>y\<rfloor> + 1" by linarith+
  show ?thesis using b unfolding round_even_def Let_def floor_minus_nonint[OF False] by (simp; linarith?)
qed

lemma fl_0: "fl 0 = 0"
  by (simp add: fl_def)

lemma fl_minus: "fl (- x) = - fl x"
  by (simp add: fl_def expo_minus round_even_minus Let_def)

lemma fl_eqI:
  assumes "2 powi e \<le> \<bar>x\<bar>" "\<bar>x\<bar> < 2 powi (e + 1)"
  shows "fl x = of_int (round_even (x / 2 powi (e - 23))) * 2 powi (e - 23)"
proof -
  have "(0::rat) < 2 powi e" by simp
  then have "0 < \<bar>x\<bar>" using assms(1) by (rule less_le_trans)
  then have x0: "x \<noteq> 0" by simp
  show ?thesis using x0 expo_unique[OF assms] by (simp add: fl_def Let_def)
qed

lemma fl_representable:
  assumes "\<bar>m\<bar> < 2 ^ 24"
  shows "fl (of_int m * 2 powi j) = of_int m * 2 powi j"
proof (cases "m = 0")
  case True
  then show ?thesis by (simp add: fl_0)
next
  case False
  define x :: rat where "x = of_int m * 2 powi j"
  have x0: "x \<noteq> 0" using False by (simp add: x_def)
  define e where "e = expo x"
  have b: "2 powi e \<le> \<bar>x\<bar>" using expo_bounds[OF x0] by (simp add: e_def)
  have "\<bar>x\<bar> = of_int \<bar>m\<bar> * 2 powi j" by (simp add: x_def abs_mult)
  also have "\<dots> < 2 ^ 24 * 2 powi j"
  proof -
    have "(of_int \<bar>m\<bar> :: rat) < of_int (2 ^ 24)" using assms by (simp only: of_int_less_iff)
    then show ?thesis by simp
  qed
  also have "\<dots> = 2 powi (24 + j)" by (simp add: power_int_add)
  finally have "(2::rat) powi e < 2 powi (24 + j)" using b by simp
  then have ej: "e < 24 + j" by (rule pow2_less_D)
  define k where "k = nat (j - (e - 23))"
  have kj: "j = (e - 23) + int k" using ej by (simp add: k_def)
  have "x / 2 powi (e - 23) = of_int m * 2 ^ k"
    by (simp add: x_def kj power_int_add)
  also have "\<dots> = of_int (m * 2 ^ k)" by simp
  finally have "round_even (x / 2 powi (e - 23)) = m * 2 ^ k"
    by (simp only: round_even_of_int)
  then have "fl x = of_int (m * 2 ^ k) * 2 powi (e - 23)"
    using x0 by (simp add: fl_def Let_def e_def)
  also have "\<dots> = x" by (simp add: x_def kj power_int_add)
  finally show ?thesis by (simp add: x_def)
qed

lemma fl_int: "\<bar>k\<bar> < 2 ^ 24 \<Longrightarrow> fl (of_int k) = of_int k"
  using fl_representable[of k 0] by simp

lemma fl_half_int: "\<bar>k\<bar> < 2 ^ 24 \<Longrightarrow> fl (of_int k / 2) = of_int k / 2"
  using fl_representable[of k "- 1"] by (simp add: power_int_minus field_simps)

lemma pow2_add: "(2::rat) powi (m + n) = 2 powi m * 2 powi n"
  by (simp add: power_int_add)

lemma pow2_shift: "(2::rat) powi a = 2 ^ k * 2 powi (a - int k)"
proof -
  have "(2::rat) powi a = 2 powi (int k + (a - int k))" by simp
  also have "\<dots> = 2 powi (int k) * 2 powi (a - int k)" by (rule pow2_add)
  finally show ?thesis by simp
qed

lemma fl_pos_range:
  assumes "0 < x"
  shows "2 powi expo x \<le> fl x \<and> fl x \<le> 2 powi (expo x + 1)"
proof -
  define e where "e = expo x"
  define u :: rat where "u = 2 powi (e - 23)"
  have u0: "0 < u" by (simp add: u_def)
  have x0: "x \<noteq> 0" using assms by simp
  have b: "2 powi e \<le> x" "x < 2 powi (e + 1)"
    using expo_bounds[OF x0] assms by (simp_all add: e_def)
  have flx: "fl x = of_int (round_even (x / u)) * u"
    using x0 by (simp add: fl_def Let_def e_def u_def)
  have lo: "of_int (2 ^ 23) \<le> x / u"
  proof -
    have "(2::rat) ^ 23 * u = 2 powi e" using pow2_shift[of e 23] by (simp add: u_def)
    then show ?thesis using b(1) u0 by (simp add: pos_le_divide_eq)
  qed
  have hi: "x / u \<le> of_int (2 ^ 24)"
  proof -
    have "(2::rat) ^ 24 * u = 2 powi (e + 1)" using pow2_shift[of "e + 1" 24] by (simp add: u_def)
    then show ?thesis using b(2) u0 by (simp add: pos_divide_le_eq)
  qed
  have rlo: "2 ^ 23 \<le> round_even (x / u)"
    using round_even_mono[OF lo] by (simp only: round_even_of_int)
  have rhi: "round_even (x / u) \<le> 2 ^ 24"
    using round_even_mono[OF hi] by (simp only: round_even_of_int)
  have "(2::rat) powi e = of_int (2 ^ 23) * u" using pow2_shift[of e 23] by (simp add: u_def)
  also have "\<dots> \<le> of_int (round_even (x / u)) * u"
    using rlo u0 by (intro mult_right_mono) (simp_all only: of_int_le_iff less_imp_le)
  finally have 1: "2 powi e \<le> fl x" by (simp add: flx)
  have "of_int (round_even (x / u)) * u \<le> of_int (2 ^ 24) * u"
    using rhi u0 by (intro mult_right_mono) (simp_all only: of_int_le_iff less_imp_le)
  also have "\<dots> = 2 powi (e + 1)" using pow2_shift[of "e + 1" 24] by (simp add: u_def)
  finally have 2: "fl x \<le> 2 powi (e + 1)" by (simp add: flx)
  from 1 2 show ?thesis by (simp add: e_def)
qed

lemma fl_nonneg: "0 \<le> x \<Longrightarrow> 0 \<le> fl x"
proof (cases "x = 0")
  case True
  then show ?thesis by (simp add: fl_0)
next
  case False
  assume "0 \<le> x"
  with False have "0 < x" by simp
  from fl_pos_range[OF this] have "2 powi expo x \<le> fl x" by simp
  moreover have "(0::rat) < 2 powi expo x" by simp
  ultimately show ?thesis by linarith
qed

lemma fl_mono_pos:
  assumes "0 < x" "x \<le> y"
  shows "fl x \<le> fl y"
proof -
  have y0: "0 < y" using assms by simp
  have xn: "x \<noteq> 0" and yn: "y \<noteq> 0" using assms by simp_all
  have bx: "2 powi expo x \<le> x" "x < 2 powi (expo x + 1)"
    using expo_bounds[OF xn] assms by simp_all
  have by': "2 powi expo y \<le> y" "y < 2 powi (expo y + 1)"
    using expo_bounds[OF yn] y0 by simp_all
  have "(2::rat) powi expo x < 2 powi (expo y + 1)" using bx(1) by'(2) assms(2) by linarith
  then have le: "expo x \<le> expo y" using pow2_less_D by fastforce
  show ?thesis
  proof (cases "expo x = expo y")
    case True
    have "x / 2 powi (expo y - 23) \<le> y / 2 powi (expo y - 23)"
      using assms(2) by (simp add: divide_right_mono)
    then have "round_even (x / 2 powi (expo y - 23)) \<le> round_even (y / 2 powi (expo y - 23))"
      by (rule round_even_mono)
    then have "(of_int (round_even (x / 2 powi (expo y - 23))) :: rat) * 2 powi (expo y - 23)
        \<le> of_int (round_even (y / 2 powi (expo y - 23))) * 2 powi (expo y - 23)"
      by (intro mult_right_mono) (simp_all only: of_int_le_iff zero_le_power_int zero_le_numeral)
    then show ?thesis using xn yn True by (simp add: fl_def Let_def)
  next
    case False
    with le have "expo x + 1 \<le> expo y" by simp
    then have "(2::rat) powi (expo x + 1) \<le> 2 powi expo y" by (intro power_int_increasing) auto
    then show ?thesis using fl_pos_range[OF assms(1)] fl_pos_range[OF y0] by linarith
  qed
qed

lemma fl_mono:
  assumes "x \<le> y"
  shows "fl x \<le> fl y"
proof -
  consider "0 < x" | "x \<le> 0" "0 \<le> y" | "y < 0" by linarith
  then show ?thesis
  proof cases
    case 1
    then show ?thesis using assms by (rule fl_mono_pos)
  next
    case 2
    have "0 \<le> fl (- x)" using 2(1) by (intro fl_nonneg) simp
    then have "fl x \<le> 0" by (simp add: fl_minus)
    then show ?thesis using fl_nonneg[OF 2(2)] by linarith
  next
    case 3
    have "fl (- y) \<le> fl (- x)" using 3 assms by (intro fl_mono_pos) simp_all
    then show ?thesis by (simp add: fl_minus)
  qed
qed

lemma fl_error:
  assumes "\<bar>x\<bar> < 2 powi k"
  shows "\<bar>fl x - x\<bar> \<le> 2 powi (k - 25)"
proof (cases "x = 0")
  case True
  then show ?thesis by (simp add: fl_0)
next
  case False
  define e where "e = expo x"
  define u :: rat where "u = 2 powi (e - 23)"
  have u0: "0 < u" by (simp add: u_def)
  have "(2::rat) powi e < 2 powi k" using expo_bounds[OF False] assms by (simp add: e_def)
  then have "e < k" by (rule pow2_less_D)
  then have "e - 24 \<le> k - 25" by simp
  then have le: "(2::rat) powi (e - 24) \<le> 2 powi (k - 25)" by (intro power_int_increasing) auto
  have flx: "fl x = of_int (round_even (x / u)) * u"
    using False by (simp add: fl_def Let_def e_def u_def)
  have "fl x - x = (of_int (round_even (x / u)) - x / u) * u"
    using u0 by (simp add: flx field_simps)
  then have "\<bar>fl x - x\<bar> = \<bar>of_int (round_even (x / u)) - x / u\<bar> * u"
    using u0 by (simp add: abs_mult)
  also have "\<dots> \<le> (1 / 2) * u"
    using round_even_near[of "x / u"] u0 by (intro mult_right_mono) simp_all
  also have "\<dots> = 2 powi (e - 24)"
  proof -
    have "u = 2 * 2 powi (e - 24)" using pow2_shift[of "e - 23" 1] by (simp add: u_def)
    then show ?thesis by simp
  qed
  finally show ?thesis using le by linarith
qed

section \<open>The size of the large steps\<close>

text \<open>
  The bisection returns the integer part of the \<open>steps\<close>-th root of \<open>2 ^ att_dB\<close>, which is
  the \<open>coarseStepSize\<close> of the specification.
\<close>

declare root_search.simps [simp del]

lemma root_search_correct:
  assumes "0 < s" "0 \<le> lo" "lo < hi" "lo ^ s \<le> 2 ^ a" "2 ^ a < hi ^ s"
  shows "root_search a s lo hi ^ s \<le> 2 ^ a \<and> 2 ^ a < (root_search a s lo hi + 1) ^ s
         \<and> lo \<le> root_search a s lo hi"
  using assms
proof (induction a s lo hi rule: root_search.induct)
  case (1 a s lo hi)
  show ?case
  proof (cases "hi \<le> lo + 1")
    case True
    with "1.prems" have "hi = lo + 1" by simp
    then show ?thesis using "1.prems" by (subst (1 2 3) root_search.simps) simp
  next
    case False
    define mid where "mid = (lo + hi) div 2"
    have m: "lo < mid" "mid < hi" using False by (simp_all add: mid_def)
    show ?thesis
    proof (cases "mid ^ s \<le> 2 ^ a")
      case True
      have eq: "root_search a s lo hi = root_search a s mid hi"
        using False True by (subst root_search.simps) (simp add: mid_def Let_def)
      have "root_search a s mid hi ^ s \<le> 2 ^ a \<and> 2 ^ a < (root_search a s mid hi + 1) ^ s
         \<and> mid \<le> root_search a s mid hi"
        using "1.IH"(1)[OF False mid_def True] True m "1.prems" by simp
      then show ?thesis using m by (simp add: eq)
    next
      case F2: False
      have eq: "root_search a s lo hi = root_search a s lo mid"
        using False F2 by (subst root_search.simps) (simp add: mid_def Let_def)
      have "root_search a s lo mid ^ s \<le> 2 ^ a \<and> 2 ^ a < (root_search a s lo mid + 1) ^ s
         \<and> lo \<le> root_search a s lo mid"
        using "1.IH"(2)[OF False mid_def F2] F2 m "1.prems" by simp
      then show ?thesis by (simp add: eq)
    qed
  qed
qed

lemma root_unique:
  fixes r c N :: int
  assumes "0 \<le> r" "0 \<le> c" "r ^ s \<le> N" "N < (r + 1) ^ s" "c ^ s \<le> N" "N < (c + 1) ^ s"
  shows "r = c"
proof (rule ccontr)
  assume "r \<noteq> c"
  then consider "r + 1 \<le> c" | "c + 1 \<le> r" by linarith
  then show False
  proof cases
    case 1
    then have "(r + 1) ^ s \<le> c ^ s" using assms(1) by (intro power_mono) simp_all
    then show False using assms by linarith
  next
    case 2
    then have "(c + 1) ^ s \<le> r ^ s" using assms(2) by (intro power_mono) simp_all
    then show False using assms by linarith
  qed
qed

lemma sizeOfLargeSteps_props:
  assumes "0 < steps" "0 \<le> att"
  shows "\<exists>c. sizeOfLargeSteps att steps = Some c \<and> 1 \<le> c
             \<and> c ^ steps \<le> 2 ^ nat att \<and> 2 ^ nat att < (c + 1) ^ steps"
proof -
  define a where "a = nat att"
  have "(2::int) ^ a + 1 \<le> (2 ^ a + 1) ^ steps"
    using assms(1) self_le_power[of "2 ^ a + 1 :: int" steps] by simp
  then have hi: "(2::int) ^ a < (2 ^ a + 1) ^ steps" by simp
  have lo: "(1::int) ^ steps \<le> 2 ^ a" by simp
  have "(1::int) < 2 ^ a + 1" by simp
  from root_search_correct[OF assms(1) _ this lo hi]
  show ?thesis using assms by (simp add: sizeOfLargeSteps_def a_def)
qed

lemma sizeOfLargeSteps_eqI:
  assumes "0 < steps" "0 \<le> att" "0 \<le> c" "c ^ steps \<le> 2 ^ nat att" "2 ^ nat att < (c + 1) ^ steps"
  shows "sizeOfLargeSteps att steps = Some c"
proof -
  from sizeOfLargeSteps_props[OF assms(1,2)] obtain r where
    r: "sizeOfLargeSteps att steps = Some r" "1 \<le> r" "r ^ steps \<le> 2 ^ nat att"
       "2 ^ nat att < (r + 1) ^ steps" by blast
  have "r = c" using r assms by (intro root_unique[of r c steps "2 ^ nat att"]) simp_all
  then show ?thesis using r(1) by simp
qed

lemma coarseStepSize_floor:
  "coarseStepSize rangeDb steps = \<lfloor>2 powr (real_of_int rangeDb / real steps)\<rfloor>"
  by (simp add: coarseStepSize_def round_def)

lemma powr_quotient_power:
  assumes "0 < steps"
  shows "(2 powr (real_of_int att / real steps)) ^ steps = 2 powr real_of_int att"
proof -
  have "(2 powr (real_of_int att / real steps)) ^ steps
        = (2 powr (real_of_int att / real steps)) powr real steps"
    by (simp add: powr_realpow)
  also have "\<dots> = 2 powr (real_of_int att / real steps * real steps)" by (simp add: powr_powr)
  also have "\<dots> = 2 powr real_of_int att" using assms by simp
  finally show ?thesis .
qed

lemma sizeOfLargeSteps_coarseStepSize:
  assumes "0 < steps" "0 \<le> att"
  shows "sizeOfLargeSteps att steps = Some (coarseStepSize att steps)"
proof -
  define p where "p = 2 powr (real_of_int att / real steps)"
  define c where "c = \<lfloor>p\<rfloor>"
  have p1: "1 \<le> p" using assms unfolding p_def by (intro ge_one_powr_ge_zero) simp_all
  have c1: "1 \<le> c" using p1 by (simp add: c_def le_floor_iff)
  have pp: "p ^ steps = 2 ^ nat att"
    using powr_quotient_power[OF assms(1), of att] assms(2)
    by (simp add: p_def powr_realpow[symmetric] del: powr_realpow)
  have b: "of_int c \<le> p" "p < of_int c + 1" unfolding c_def by linarith+
  have "(of_int c :: real) ^ steps \<le> p ^ steps" using b(1) c1 by (intro power_mono) simp_all
  then have "(of_int (c ^ steps) :: real) \<le> of_int (2 ^ nat att)" by (simp add: pp)
  then have 1: "c ^ steps \<le> 2 ^ nat att" by (simp only: of_int_le_iff)
  have "p ^ steps < (of_int c + 1) ^ steps" using b(2) p1 assms(1) by (intro power_strict_mono) simp_all
  then have "(of_int (2 ^ nat att) :: real) < of_int ((c + 1) ^ steps)" by (simp add: pp)
  then have 2: "2 ^ nat att < (c + 1) ^ steps" by (simp only: of_int_less_iff)
  have "sizeOfLargeSteps att steps = Some c"
    using assms c1 1 2 by (intro sizeOfLargeSteps_eqI) simp_all
  then show ?thesis by (simp add: coarseStepSize_floor c_def p_def)
qed

section \<open>The feasible branch\<close>

text \<open>
  For a size of 1, 2 or 4, for a size of 3 up to the number of small steps, and for a size
  of 3 with a range divisible by 3, every operation of lines 463 and 471 is exact (all
  operands are halves of small integers) and the result is the integer of the
  specification's formula. Otherwise the number of small steps \<open>2 n / 3\<close> is rounded; the
  error analysis of \<open>attenuation_lower_3\<close> bounds the result from below, and monotonicity
  of the rounding bounds it from above and makes it antitone in the selected step.
\<close>

lemma att_less:
  fixes c :: int
  assumes "1 \<le> c" "c \<le> 4" "(2::int) ^ A < (c + 1) ^ S"
  shows "int A < c * int S"
proof -
  have "c + 1 \<le> 2 ^ nat c"
  proof -
    from assms(1,2) consider "c = 1" | "c = 2" | "c = 3" | "c = 4" by linarith
    then show ?thesis by cases simp_all
  qed
  then have "(c + 1) ^ S \<le> (2 ^ nat c) ^ S" using assms(1) by (intro power_mono) simp_all
  also have "\<dots> = 2 ^ (nat c * S)" by (simp add: power_mult)
  finally have "(c + 1) ^ S \<le> 2 ^ (nat c * S)" .
  with assms(3) have "(2::int) ^ A < 2 ^ (nat c * S)" by (rule less_le_trans)
  then have "A < nat c * S" by simp
  then have "int A < int (nat c * S)" by (simp only: of_nat_less_iff)
  then show ?thesis using assms(1) by simp
qed

lemma fl_int_small: "\<bar>k\<bar> \<le> 4096 \<Longrightarrow> fl (of_int k) = of_int k"
  by (rule fl_int) simp

lemma fl_half_small: "\<bar>k\<bar> \<le> 4096 \<Longrightarrow> fl (of_int k / 2) = of_int k / 2"
  by (rule fl_half_int) simp

lemma small_eq_fine:
  assumes "1 \<le> c" "c \<le> 4" "0 \<le> S" "S \<le> 255" "0 \<le> A" "A \<le> 255"
  shows "numberOfSmallSteps (of_int c) (of_int S) (of_int A) = fl (fineStepCount c S A)"
proof -
  have u: "c * S \<le> 4 * 255" using assms by (intro mult_mono) simp_all
  have l: "0 \<le> c * S" using assms by simp
  have b1: "\<bar>c * S\<bar> \<le> 4096" using u l by linarith
  have 1: "fmul (of_int c) (of_int S) = of_int (c * S)"
    using fl_int_small[OF b1] by (simp add: fmul_def)
  have "\<bar>c * S - A\<bar> \<le> 4096" using u l assms by linarith
  then have 2: "fsub (of_int (c * S)) (of_int A) = of_int (c * S - A)"
    using fl_int_small[of "c * S - A"] by (simp add: fsub_def)
  have "\<bar>c\<bar> \<le> 4096" using assms by linarith
  then have 3: "fdiv (of_int c) 2 = of_int c / 2"
    using fl_half_small[of c] by (simp add: fdiv_def)
  show ?thesis
    unfolding numberOfSmallSteps_def 1 2 3 by (simp add: fdiv_def fineStepCount_def)
qed

lemma attenuation_fine_part:
  assumes c: "1 \<le> c" "c \<le> 4" and s: "0 \<le> s" "s \<le> 255" and M: "0 \<le> M" "M \<le> 255"
    and le: "of_int s \<le> small"
  shows "attenuation (of_int c) small (of_int s) (of_int M) = of_int (2 * M - s * c)"
proof -
  have u: "s * c \<le> 255 * 4" using c s by (intro mult_mono) simp_all
  have l: "0 \<le> s * c" using c s by simp
  have 1: "min_macro (of_int s) small = of_int s" using le by (simp add: min_macro_def)
  have "\<bar>c\<bar> \<le> 4096" using c by linarith
  then have 2: "fdiv (of_int c) 2 = of_int c / 2"
    using fl_half_small[of c] by (simp add: fdiv_def)
  have "\<bar>s * c\<bar> \<le> 4096" using u l by linarith
  then have 3: "fmul (of_int s) (of_int c / 2) = of_int (s * c) / 2"
    using fl_half_small[of "s * c"] by (simp add: fmul_def)
  have "fl (of_int s - small) \<le> fl 0" using le by (intro fl_mono) simp
  then have 4: "max_macro (fsub (of_int s) small) 0 = 0"
    by (simp add: max_macro_def fsub_def fl_0)
  have 5: "fmul 0 (of_int c) = 0" by (simp add: fmul_def fl_0)
  have 6: "fadd (of_int (s * c) / 2) 0 = of_int (s * c) / 2"
    using \<open>\<bar>s * c\<bar> \<le> 4096\<close> fl_half_small[of "s * c"] by (simp add: fadd_def)
  have "\<bar>2 * M - s * c\<bar> \<le> 4096" using u l M by linarith
  then have 7: "fsub (of_int M) (of_int (s * c) / 2) = of_int (2 * M - s * c) / 2"
    using fl_half_small[of "2 * M - s * c"] by (simp add: fsub_def field_simps)
  have e8: "(of_int (2 * M - s * c) :: rat) / 2 * 2 = of_int (2 * M - s * c)" by simp
  have 8: "fmul (of_int (2 * M - s * c) / 2) 2 = of_int (2 * M - s * c)"
    unfolding fmul_def e8 using \<open>\<bar>2 * M - s * c\<bar> \<le> 4096\<close> by (rule fl_int_small)
  show ?thesis unfolding attenuation_def 1 2 3 4 5 6 7 8 ..
qed

lemma attenuation_coarse_part:
  assumes c14: "1 \<le> c" "c \<le> 4" and n: "0 \<le> n" "n \<le> 1020"
    and s: "0 \<le> s" "s \<le> 255" and M: "0 \<le> M" "M \<le> 255"
    and small: "small = of_int (2 * n) / of_int c" and lt: "small < of_int s"
    and k: "small = of_int k / 2" "0 \<le> k" "k \<le> 4080"
  shows "attenuation (of_int c) small (of_int s) (of_int M) = of_int (2 * (M + n - s * c))"
proof -
  have c0: "(of_int c :: rat) \<noteq> 0" using c14 by simp
  have u: "s * c \<le> 255 * 4" using c14 s by (intro mult_mono) simp_all
  have l: "0 \<le> s * c" using c14 s by simp
  have 1: "min_macro (of_int s) small = small" using lt by (simp add: min_macro_def)
  have "\<bar>c\<bar> \<le> 4096" using c14 by linarith
  then have 2: "fdiv (of_int c) 2 = of_int c / 2"
    using fl_half_small[of c] by (simp add: fdiv_def)
  have "small * (of_int c / 2) = of_int n" using c0 by (simp add: small)
  moreover have "\<bar>n\<bar> \<le> 4096" using n by linarith
  ultimately have 3: "fmul small (of_int c / 2) = of_int n"
    using fl_int_small[of n] by (simp add: fmul_def)
  have dk: "of_int s - small = of_int (2 * s - k) / 2" by (simp add: k field_simps)
  have "\<bar>2 * s - k\<bar> \<le> 4096" using s k by linarith
  then have "fsub (of_int s) small = of_int s - small"
    using fl_half_small[of "2 * s - k"] by (simp add: fsub_def dk)
  then have 4: "max_macro (fsub (of_int s) small) 0 = of_int s - small"
    using lt by (simp add: max_macro_def)
  have "(of_int s - small) * of_int c = of_int (s * c - 2 * n)"
    using c0 by (simp add: small field_simps)
  moreover have "\<bar>s * c - 2 * n\<bar> \<le> 4096" using u l n by linarith
  ultimately have 5: "fmul (of_int s - small) (of_int c) = of_int (s * c - 2 * n)"
    using fl_int_small[of "s * c - 2 * n"] by (simp add: fmul_def)
  have "\<bar>s * c - n\<bar> \<le> 4096" using u l n by linarith
  then have 6: "fadd (of_int n) (of_int (s * c - 2 * n)) = of_int (s * c - n)"
    using fl_int_small[of "s * c - n"] by (simp add: fadd_def)
  have "\<bar>M + n - s * c\<bar> \<le> 4096" using u l n M by linarith
  moreover have "(of_int M :: rat) - of_int (s * c - n) = of_int (M + n - s * c)" by simp
  ultimately have 7: "fsub (of_int M) (of_int (s * c - n)) = of_int (M + n - s * c)"
    unfolding fsub_def by (simp only: fl_int_small)
  have "\<bar>M + n - s * c\<bar> \<le> 2048" using u l n M by linarith
  then have "\<bar>2 * (M + n - s * c)\<bar> \<le> 4096" by (simp add: abs_mult)
  moreover have "(of_int (M + n - s * c) :: rat) * 2 = of_int (2 * (M + n - s * c))" by simp
  ultimately have 8: "fmul (of_int (M + n - s * c)) 2 = of_int (2 * (M + n - s * c))"
    unfolding fmul_def by (simp only: fl_int_small)
  show ?thesis unfolding attenuation_def 1 2 3 4 5 6 7 8 ..
qed

lemma fl_error_2048:
  assumes "\<bar>x\<bar> < 2048"
  shows "\<bar>fl x - x\<bar> \<le> 1 / 16384"
proof -
  have "\<bar>x\<bar> < 2 powi 11" using assms by simp
  from fl_error[OF this] show ?thesis by (simp add: power_int_minus field_simps)
qed

lemma min_macro_mono: "a \<le> b \<Longrightarrow> min_macro a x \<le> min_macro b x"
  by (simp add: min_macro_def)

lemma max_macro_mono: "a \<le> b \<Longrightarrow> max_macro a x \<le> max_macro b x"
  by (simp add: max_macro_def)

lemma attenuation_antimono:
  assumes "0 \<le> c" "s1 \<le> s2"
  shows "attenuation c small s2 M \<le> attenuation c small s1 M"
proof -
  have h: "0 \<le> fdiv c 2" using assms(1) by (simp add: fdiv_def fl_nonneg)
  have 1: "fmul (min_macro s1 small) (fdiv c 2) \<le> fmul (min_macro s2 small) (fdiv c 2)"
    unfolding fmul_def using assms(2) h by (intro fl_mono mult_right_mono min_macro_mono)
  have "fsub s1 small \<le> fsub s2 small"
    unfolding fsub_def using assms(2) by (intro fl_mono) simp
  then have 2: "fmul (max_macro (fsub s1 small) 0) c \<le> fmul (max_macro (fsub s2 small) 0) c"
    unfolding fmul_def using assms(1) by (intro fl_mono mult_right_mono max_macro_mono)
  have "fadd (fmul (min_macro s1 small) (fdiv c 2)) (fmul (max_macro (fsub s1 small) 0) c)
        \<le> fadd (fmul (min_macro s2 small) (fdiv c 2)) (fmul (max_macro (fsub s2 small) 0) c)"
    unfolding fadd_def using 1 2 by (intro fl_mono add_mono)
  then show ?thesis
    unfolding attenuation_def fmul_def[of _ 2] fsub_def[of M]
    by (intro fl_mono mult_right_mono diff_left_mono) simp_all
qed

lemma attenuation_upper:
  assumes "0 \<le> c" "0 \<le> small" "0 \<le> s" "0 \<le> M" "M \<le> 255"
  shows "attenuation c small (of_int s) (of_int M) \<le> of_int (2 * M)"
proof -
  have h: "0 \<le> fdiv c 2" using assms(1) by (simp add: fdiv_def fl_nonneg)
  have "0 \<le> min_macro (of_int s) small" using assms by (simp add: min_macro_def)
  then have 1: "0 \<le> fmul (min_macro (of_int s) small) (fdiv c 2)"
    unfolding fmul_def using h by (intro fl_nonneg mult_nonneg_nonneg)
  have "0 \<le> max_macro (fsub (of_int s) small) 0" by (simp add: max_macro_def)
  then have 2: "0 \<le> fmul (max_macro (fsub (of_int s) small) 0) c"
    unfolding fmul_def using assms(1) by (intro fl_nonneg mult_nonneg_nonneg)
  let ?sum = "fadd (fmul (min_macro (of_int s) small) (fdiv c 2))
      (fmul (max_macro (fsub (of_int s) small) 0) c)"
  have "0 \<le> ?sum" unfolding fadd_def using 1 2 by (intro fl_nonneg add_nonneg_nonneg)
  then have "fl (of_int M - ?sum) \<le> fl (of_int M)" by (intro fl_mono) simp
  moreover have "fl (of_int M) = of_int M" using assms by (intro fl_int_small) linarith
  ultimately have "fl (of_int M - ?sum) * 2 \<le> of_int (2 * M)" by simp
  then have "fl (fl (of_int M - ?sum) * 2) \<le> fl (of_int (2 * M))" by (rule fl_mono)
  moreover have "fl (of_int (2 * M)) = of_int (2 * M)"
    using assms by (intro fl_int_small) linarith
  ultimately show ?thesis
    unfolding attenuation_def fmul_def[of _ 2] fsub_def[of "of_int M"] by (simp only:)
qed

lemma attenuation_lower_3:
  assumes n: "0 \<le> n" and feas: "2 * n \<le> 3 * S" and s: "0 \<le> s" "s \<le> S" and S: "S \<le> 255"
    and M: "3 * S - n \<le> M" "M \<le> 255"
  shows "of_int (2 * (M - (3 * S - n))) - 1
         < attenuation 3 (fl (of_int (2 * n) / 3)) (of_int s) (of_int M)"
proof -
  define f :: rat where "f = of_int (2 * n) / 3"
  define sm where "sm = fl f"
  define a where "a = min_macro (of_int s) sm"
  define t1 where "t1 = fmul a (fdiv 3 2)"
  define d where "d = fsub (of_int s) sm"
  define b where "b = max_macro d 0"
  define t2 where "t2 = fmul b 3"
  define sum where "sum = fadd t1 t2"
  define r where "r = fsub (of_int M) sum"
  have val: "attenuation 3 (fl (of_int (2 * n) / 3)) (of_int s) (of_int M) = fmul r 2"
    by (simp add: attenuation_def r_def sum_def t2_def b_def d_def t1_def a_def sm_def f_def)
  have sr: "(0::rat) \<le> of_int s" "(of_int s :: rat) \<le> of_int S" "(of_int S :: rat) \<le> 255"
    using s S by simp_all
  have Mr: "(of_int M :: rat) \<le> 255" "3 * (of_int S :: rat) - of_int n \<le> of_int M"
  proof -
    show "(of_int M :: rat) \<le> 255" using M by simp
    have "(of_int (3 * S - n) :: rat) \<le> of_int M" using M(1) by (simp only: of_int_le_iff)
    then show "3 * (of_int S :: rat) - of_int n \<le> of_int M" by simp
  qed
  have nr: "(0::rat) \<le> of_int n" "2 * (of_int n :: rat) \<le> 3 * of_int S"
  proof -
    show "(0::rat) \<le> of_int n" using n by simp
    have "(of_int (2 * n) :: rat) \<le> of_int (3 * S)" using feas by (simp only: of_int_le_iff)
    then show "2 * (of_int n :: rat) \<le> 3 * of_int S" by simp
  qed
  have f3: "3 * f = 2 * of_int n" by (simp add: f_def)
  have f0: "0 \<le> f" using nr f3 by linarith
  have fS: "f \<le> of_int S" using nr f3 by linarith
  have sm_err: "\<bar>sm - f\<bar> \<le> 1 / 16384"
    unfolding sm_def using f0 fS sr by (intro fl_error_2048) linarith
  have sm0: "0 \<le> sm" unfolding sm_def using f0 by (rule fl_nonneg)
  have a_le: "0 \<le> a" "a \<le> of_int s" "a \<le> sm"
    using sr sm0 by (simp_all add: a_def min_macro_def)
  have h: "fdiv 3 2 = 3 / 2"
    using fl_half_small[of 3] by (simp add: fdiv_def)
  have t1_err: "\<bar>t1 - a * (3 / 2)\<bar> \<le> 1 / 16384"
    unfolding t1_def h fmul_def using a_le sr by (intro fl_error_2048) linarith
  have d_err: "\<bar>d - (of_int s - sm)\<bar> \<le> 1 / 16384"
    unfolding d_def fsub_def using sr sm0 sm_err fS by (intro fl_error_2048) linarith
  have d_neg: "d \<le> 0" if "of_int s \<le> sm"
  proof -
    have "fl (of_int s - sm) \<le> fl 0" using that by (intro fl_mono) simp
    then show ?thesis by (simp add: d_def fsub_def fl_0)
  qed
  have b0: "0 \<le> b" by (simp add: b_def max_macro_def)
  have b_le: "b \<le> 0 \<or> b \<le> of_int s - sm + 1 / 16384"
  proof (cases "0 < d")
    case True
    then have "b = d" by (simp add: b_def max_macro_def)
    then show ?thesis using d_err by linarith
  next
    case False
    then show ?thesis by (simp add: b_def max_macro_def)
  qed
  have b_zero: "b = 0" if "of_int s \<le> sm"
    using d_neg[OF that] by (simp add: b_def max_macro_def)
  have b_hi: "b \<le> 256" using b_le sr sm0 by linarith
  have t2_err: "\<bar>t2 - b * 3\<bar> \<le> 1 / 16384"
    unfolding t2_def fmul_def using b0 b_hi by (intro fl_error_2048) linarith
  have sum_err: "\<bar>sum - (t1 + t2)\<bar> \<le> 1 / 16384"
    unfolding sum_def fadd_def using t1_err t2_err a_le b0 b_hi sr by (intro fl_error_2048) linarith
  have sum_le: "sum \<le> 3 * of_int S - of_int n + 1 / 1024"
  proof (cases "of_int s \<le> sm")
    case True
    have "a * (3 / 2) \<le> of_int n + 1 / 8192" using a_le sm_err f3 by linarith
    then show ?thesis using b_zero[OF True] t1_err t2_err sum_err nr by linarith
  next
    case False
    then have "a = sm" by (simp add: a_def min_macro_def)
    moreover have "b \<le> of_int s - sm + 1 / 16384" using b_le False by linarith
    ultimately show ?thesis using t1_err t2_err sum_err sm_err f3 sr nr by linarith
  qed
  have sum0: "0 \<le> sum"
    using t1_err t2_err sum_err a_le b0 unfolding sum_def fadd_def t1_def t2_def fmul_def h
    by (intro fl_nonneg add_nonneg_nonneg mult_nonneg_nonneg) simp_all
  have r_err: "\<bar>r - (of_int M - sum)\<bar> \<le> 1 / 16384"
    unfolding r_def fsub_def using sum_le sum0 Mr nr sr
    by (intro fl_error_2048) linarith
  define X :: rat where "X = of_int M - (3 * of_int S - of_int n)"
  define D where "D = M - (3 * S - n)"
  have D: "0 \<le> D" "D \<le> 255" using M n feas unfolding D_def by linarith+
  define k where "k = 4 * D - 1"
  have kr: "(of_int k :: rat) / 2 = 2 * X - 1 / 2"
    by (simp add: k_def D_def X_def field_simps)
  have "X - 1 / 512 \<le> r" unfolding X_def using r_err sum_le by linarith
  then have "of_int k / 2 \<le> r * 2" unfolding kr by linarith
  then have "fl (of_int k / 2) \<le> fl (r * 2)" by (rule fl_mono)
  moreover have "fl (of_int k / 2) = of_int k / 2"
    using D unfolding k_def by (intro fl_half_small) linarith
  ultimately have "of_int k / 2 \<le> fmul r 2" by (simp add: fmul_def)
  then have "2 * X - 1 < fmul r 2" unfolding kr by linarith
  then show ?thesis unfolding val X_def by simp
qed

lemma coarseStepSize_eqI:
  assumes "0 < steps" "0 \<le> att" "0 \<le> c" "c ^ steps \<le> 2 ^ nat att" "2 ^ nat att < (c + 1) ^ steps"
  shows "coarseStepSize att steps = c"
  using sizeOfLargeSteps_eqI[OF assms] sizeOfLargeSteps_coarseStepSize[OF assms(1,2)] by simp

lemma coarseStepSize_props:
  assumes "0 < steps" "0 \<le> att"
  shows "1 \<le> coarseStepSize att steps"
    and "coarseStepSize att steps ^ steps \<le> 2 ^ nat att"
    and "2 ^ nat att < (coarseStepSize att steps + 1) ^ steps"
  using sizeOfLargeSteps_props[OF assms] sizeOfLargeSteps_coarseStepSize[OF assms] by auto

lemma fine_times_coarse:
  assumes "c \<noteq> 0"
  shows "fineStepCount c S A * of_int c = of_int (2 * (c * S - A))"
  using assms by (simp add: fineStepCount_def field_simps)

lemma fine_pos:
  assumes "1 \<le> c" "A < c * S"
  shows "0 < fineStepCount c S A"
proof -
  have "(0::rat) < of_int (c * S - A)" using assms(2) by (simp only: of_int_0_less_iff)
  then show ?thesis using assms(1) by (simp add: fineStepCount_def zero_less_divide_iff)
qed

lemma fine_gap:
  assumes c: "1 \<le> c" "c \<le> 4" and gt: "of_int S < fineStepCount c S A"
  shows "of_int S + 1 / 4 \<le> fineStepCount c S A"
proof -
  define k where "k = c * S - 2 * A"
  have cr: "(0::rat) < of_int c" using c by simp
  have d: "fineStepCount c S A - of_int S = of_int k / of_int c"
    using cr by (simp add: fineStepCount_def k_def field_simps)
  have "0 < of_int k / (of_int c :: rat)" using gt d by linarith
  then have "(0::rat) < of_int k" using cr by (simp add: zero_less_divide_iff)
  then have "1 \<le> k" by simp
  then have "(1::rat) \<le> of_int k" by simp
  moreover have "(of_int c :: rat) \<le> 4" using c by simp
  ultimately have "1 / 4 \<le> of_int k / (of_int c :: rat)"
    using cr by (simp add: field_simps) 
  then show ?thesis using d by linarith
qed

lemma fine_bounds:
  assumes c: "1 \<le> c" "c \<le> 4" and S: "0 \<le> S" "S \<le> 255" and A: "0 \<le> A" "A \<le> 255"
  shows "\<bar>fineStepCount c S A\<bar> < 2048"
proof -
  have u: "c * S \<le> 4 * 255" using c S by (intro mult_mono) simp_all
  have l: "0 \<le> c * S" using c S by simp
  have cr: "(1::rat) \<le> of_int c" using c by simp
  have "\<bar>fineStepCount c S A\<bar> = \<bar>of_int (2 * (c * S - A))\<bar> / of_int c"
    using cr by (simp add: fineStepCount_def field_simps abs_divide)
  also have "\<dots> \<le> \<bar>of_int (2 * (c * S - A))\<bar> / 1"
    using cr by (intro divide_left_mono) simp_all
  also have "\<dots> = of_int \<bar>2 * (c * S - A)\<bar>" by simp
  also have "\<dots> < of_int 2048"
  proof -
    have "\<bar>c * S - A\<bar> \<le> 1020" using u l A by linarith
    then have "\<bar>2 * (c * S - A)\<bar> < 2048" by (simp add: abs_mult)
    then show ?thesis by (simp only: of_int_less_iff)
  qed
  finally show ?thesis by simp
qed

lemma feasible_iff:
  assumes c: "1 \<le> c" "c \<le> 4" and S: "0 \<le> S" "S \<le> 255" and A: "0 \<le> A" "A \<le> 255"
  shows "fl (fineStepCount c S A) \<le> of_int S \<longleftrightarrow> fineStepCount c S A \<le> of_int S"
proof
  assume "fineStepCount c S A \<le> of_int S"
  then have "fl (fineStepCount c S A) \<le> fl (of_int S)" by (rule fl_mono)
  moreover have "fl (of_int S) = of_int S" using S by (intro fl_int_small) linarith
  ultimately show "fl (fineStepCount c S A) \<le> of_int S" by simp
next
  assume le: "fl (fineStepCount c S A) \<le> of_int S"
  show "fineStepCount c S A \<le> of_int S"
  proof (rule ccontr)
    assume "\<not> fineStepCount c S A \<le> of_int S"
    then have "of_int S < fineStepCount c S A" by simp
    from fine_gap[OF c this] fl_error_2048[OF fine_bounds[OF c S A]] le
    show False by linarith
  qed
qed

lemma spec_result_fine_part:
  assumes "of_int s \<le> fine"
  shows "spec_result c fine s M = of_int (2 * M - s * c)"
  using assms by (simp add: spec_result_def min_def max_def field_simps)

lemma spec_result_coarse_part:
  assumes "fine < of_int s" "fine * of_int c = of_int (2 * n)"
  shows "spec_result c fine s M = of_int (2 * (M + n - s * c))"
proof -
  have "spec_result c fine s M
        = (of_int M - (fine * (of_int c / 2) + (of_int s - fine) * of_int c)) * 2"
    using assms(1) by (simp add: spec_result_def min_def max_def)
  also have "\<dots> = 2 * of_int M + fine * of_int c - 2 * (of_int s * of_int c)"
    by (simp add: field_simps)
  also have "\<dots> = of_int (2 * (M + n - s * c))"
    unfolding assms(2) by simp
  finally show ?thesis .
qed

lemma fine_half:
  assumes c: "c = 1 \<or> c = 2 \<or> c = 4 \<or> c = 3 \<and> 3 dvd A"
    and n: "0 \<le> c * S - A" "c * S - A \<le> 1020"
  obtains k where "fineStepCount c S A = of_int k / 2" "0 \<le> k" "k \<le> 4080"
proof -
  define m where "m = c * S - A"
  have m: "0 \<le> m" "m \<le> 1020" using n by (simp_all add: m_def)
  from c consider "c = 1" | "c = 2" | "c = 4" | "c = 3" "3 dvd A" by blast
  then show ?thesis
  proof cases
    case 1
    then have "fineStepCount c S A = of_int (4 * m) / 2"
      by (simp add: fineStepCount_def m_def)
    then show ?thesis using m by (intro that[of "4 * m"]) simp_all
  next
    case 2
    then have "fineStepCount c S A = of_int (2 * m) / 2"
      by (simp add: fineStepCount_def m_def)
    then show ?thesis using m by (intro that[of "2 * m"]) simp_all
  next
    case 3
    then have "fineStepCount c S A = of_int m / 2"
      by (simp add: fineStepCount_def m_def)
    then show ?thesis using m by (intro that[of m]) simp_all
  next
    case 4
    have "3 dvd m" using 4 by (simp add: m_def)
    then obtain q where q: "m = 3 * q" by (rule dvdE)
    have "fineStepCount c S A = of_int (2 * m) / 3"
      using 4(1) by (simp add: fineStepCount_def m_def)
    also have "\<dots> = of_int (4 * q) / 2" by (simp add: q)
    finally have "fineStepCount c S A = of_int (4 * q) / 2" .
    then show ?thesis using m q by (intro that[of "4 * q"]) simp_all
  qed
qed

lemma fine_exact:
  assumes c: "c = 1 \<or> c = 2 \<or> c = 4 \<or> c = 3 \<and> 3 dvd A"
    and n: "0 \<le> c * S - A" "c * S - A \<le> 1020"
  shows "fl (fineStepCount c S A) = fineStepCount c S A"
proof -
  from fine_half[OF c n] obtain k
    where k: "fineStepCount c S A = of_int k / 2" "0 \<le> k" "k \<le> 4080" by blast
  have "\<bar>k\<bar> \<le> 4096" using k(2,3) by linarith
  then show ?thesis unfolding k(1) by (rule fl_half_small)
qed

lemma attenuation_exact:
  assumes c: "1 \<le> c" "c \<le> 4" and n: "A < c * S"
    and feas: "fineStepCount c S A \<le> of_int S"
    and s: "0 \<le> s" "s \<le> S" and S: "S \<le> 255" and A: "0 \<le> A" and M: "A \<le> M" "M \<le> 255"
    and ex: "c \<noteq> 3 \<or> of_int s \<le> fineStepCount c S A \<or> 3 dvd A"
  shows "attenuation (of_int c) (fl (fineStepCount c S A)) (of_int s) (of_int M)
         = spec_result c (fineStepCount c S A) s M"
    and "\<exists>k. spec_result c (fineStepCount c S A) s M = of_int k \<and> 2 * (M - A) \<le> k \<and> k \<le> 2 * M"
proof -
  define fine where "fine = fineStepCount c S A"
  define m where "m = c * S - A"
  have cr: "(0::rat) < of_int c" using c by simp
  have fc: "fine * of_int c = of_int (2 * m)"
    using fine_times_coarse[of c S A] c by (simp add: fine_def m_def)
  have S0: "0 \<le> S" using s by linarith
  have cS: "c * S \<le> 4 * 255" using c S S0 by (intro mult_mono) simp_all
  have m0: "0 \<le> m" "m \<le> 1020" using n cS A by (simp_all add: m_def)
  have sc: "s * c \<le> S * c" using s c by (intro mult_right_mono) simp_all
  have "fine * of_int c \<le> of_int S * of_int c"
    using feas cr by (intro mult_right_mono) (simp_all add: fine_def)
  then have "(of_int (2 * m) :: rat) \<le> of_int (S * c)" by (simp add: fc)
  then have mA: "2 * m \<le> S * c" by (simp only: of_int_le_iff)
  show "attenuation (of_int c) (fl (fineStepCount c S A)) (of_int s) (of_int M)
         = spec_result c (fineStepCount c S A) s M"
  proof (cases "of_int s \<le> fine")
    case True
    then have "of_int s \<le> fl fine"
      using fl_mono[OF True] fl_int_small[of s] s S by simp
    then show ?thesis
      using attenuation_fine_part[OF c s(1) _ _ M(2), of "fl fine"] spec_result_fine_part[OF True]
        s S A M by (simp add: fine_def)
  next
    case False
    then have "c \<noteq> 3 \<or> 3 dvd A" using ex by (simp add: fine_def)
    then have c124: "c = 1 \<or> c = 2 \<or> c = 4 \<or> c = 3 \<and> 3 dvd A" using c by linarith
    have mm: "0 \<le> c * S - A" "c * S - A \<le> 1020" using m0 by (simp_all add: m_def)
    have fx: "fl fine = fine" using fine_exact[OF c124 mm] by (simp add: fine_def)
    from fine_half[OF c124 mm] obtain k
      where k: "fine = of_int k / 2" "0 \<le> k" "k \<le> 4080" unfolding fine_def by blast
    have sm: "fine = of_int (2 * m) / of_int c" using fc cr by (simp add: field_simps)
    have lt: "fine < of_int s" using False by simp
    show ?thesis
      using attenuation_coarse_part[OF c m0 s(1) _ _ M(2) sm lt k]
        spec_result_coarse_part[OF lt fc] s S A M
      by (simp add: fx fine_def[symmetric])
  qed
  show "\<exists>k. spec_result c (fineStepCount c S A) s M = of_int k \<and> 2 * (M - A) \<le> k \<and> k \<le> 2 * M"
  proof (cases "of_int s \<le> fine")
    case True
    have "of_int s * of_int c \<le> fine * of_int c" using True cr by (intro mult_right_mono) simp_all
    then have "(of_int (s * c) :: rat) \<le> of_int (2 * m)" by (simp add: fc)
    then have "s * c \<le> 2 * m" by (simp only: of_int_le_iff)
    moreover have "0 \<le> s * c" using s c by simp
    ultimately have "2 * (M - A) \<le> 2 * M - s * c \<and> 2 * M - s * c \<le> 2 * M"
      using mA by (simp add: m_def algebra_simps)
    then show ?thesis
      unfolding fine_def[symmetric] spec_result_fine_part[OF True] by (intro exI[of _ "2 * M - s * c"]) simp
  next
    case False
    then have lt: "fine < of_int s" by simp
    have "fine * of_int c < of_int s * of_int c" using lt cr by (intro mult_strict_right_mono)
    then have "(of_int (2 * m) :: rat) < of_int (s * c)" by (simp add: fc)
    then have "2 * m < s * c" by (simp only: of_int_less_iff)
    then have "2 * (M - A) \<le> 2 * (M + m - s * c) \<and> 2 * (M + m - s * c) \<le> 2 * M"
      using sc m0 by (simp add: m_def algebra_simps)
    then show ?thesis
      unfolding fine_def[symmetric] spec_result_coarse_part[OF lt fc]
      by (intro exI[of _ "2 * (M + m - s * c)"]) simp
  qed
qed

lemma u8_bounds: "0 \<le> uint (x :: 8 word)" "uint x \<le> 255"
  using uint_lt2p[of x] by simp_all

lemma u8_of_int: "0 \<le> k \<Longrightarrow> k \<le> 255 \<Longrightarrow> uint (word_of_int k :: 8 word) = k"
  by (simp add: uint_word_of_int_eq take_bit_int_eq_self)

lemma trunc_of_int: "trunc (of_int k) = k"
  by (simp add: trunc_def)

lemma trunc_mono:
  assumes "x \<le> y"
  shows "trunc x \<le> trunc y"
proof -
  consider "0 \<le> x" | "x < 0" "0 \<le> y" | "y < 0" by linarith
  then show ?thesis
  proof cases
    case 1
    then show ?thesis using assms by (simp add: trunc_def floor_mono)
  next
    case 2
    have "\<lceil>x\<rceil> \<le> 0" using 2(1) by (simp add: ceiling_le_iff)
    moreover have "0 \<le> \<lfloor>y\<rfloor>" using 2(2) by simp
    moreover have "trunc x = \<lceil>x\<rceil>" using 2(1) by (simp add: trunc_def)
    moreover have "trunc y = \<lfloor>y\<rfloor>" using 2(2) by (simp add: trunc_def)
    ultimately show ?thesis by linarith
  next
    case 3
    then show ?thesis using assms by (simp add: trunc_def ceiling_mono)
  qed
qed

lemma trunc_nonneg: "- 1 < x \<Longrightarrow> 0 \<le> trunc x"
  unfolding trunc_def by (auto simp: le_ceiling_iff)

lemma trunc_above:
  assumes "of_int k < x"
  shows "k \<le> trunc x"
proof (cases "0 \<le> x")
  case True
  have "of_int k \<le> x" using assms by simp
  then have "k \<le> \<lfloor>x\<rfloor>" by (simp add: le_floor_iff)
  then show ?thesis using True by (simp add: trunc_def)
next
  case False
  have "x \<le> of_int \<lceil>x\<rceil>" by (rule le_of_int_ceiling)
  then have "(of_int k :: rat) < of_int \<lceil>x\<rceil>" using assms by linarith
  then have "k < \<lceil>x\<rceil>" by (simp only: of_int_less_iff)
  then show ?thesis using False by (simp add: trunc_def)
qed

lemma attenuation_range:
  assumes c: "1 \<le> c" "c \<le> 4" and n: "A < c * S"
    and feas: "fineStepCount c S A \<le> of_int S"
    and s: "0 \<le> s" "s \<le> S" and S: "S \<le> 255" and A: "0 \<le> A" and M: "A \<le> M" "M \<le> 255"
  shows "of_int (2 * (M - A) - 1)
         < attenuation (of_int c) (fl (fineStepCount c S A)) (of_int s) (of_int M)"
    and "attenuation (of_int c) (fl (fineStepCount c S A)) (of_int s) (of_int M) \<le> of_int (2 * M)"
proof -
  have cr: "(0::rat) \<le> of_int c" using c by simp
  have "0 < fineStepCount c S A" using c n by (intro fine_pos)
  then have "0 \<le> fl (fineStepCount c S A)" by (intro fl_nonneg) simp
  then show "attenuation (of_int c) (fl (fineStepCount c S A)) (of_int s) (of_int M) \<le> of_int (2 * M)"
    using cr s A M by (intro attenuation_upper) simp_all
  show "of_int (2 * (M - A) - 1)
         < attenuation (of_int c) (fl (fineStepCount c S A)) (of_int s) (of_int M)"
  proof (cases "c = 3")
    case True
    define m where "m = 3 * S - A"
    have f: "fineStepCount 3 S A = of_int (2 * m) / 3"
      by (simp add: fineStepCount_def m_def)
    have "(of_int (2 * m) :: rat) \<le> of_int (3 * S)" using feas unfolding True f by simp
    then have "2 * m \<le> 3 * S" by (simp only: of_int_le_iff)
    moreover have "0 \<le> m" using n True by (simp add: m_def)
    moreover have "3 * S - m \<le> M" using M by (simp add: m_def)
    moreover have "3 * S - m = A" by (simp add: m_def)
    ultimately show ?thesis
      using attenuation_lower_3[of m S s M] s S M by (simp add: True f)
  next
    case False
    from attenuation_exact[OF c n feas s S A M] False
    obtain k where "attenuation (of_int c) (fl (fineStepCount c S A)) (of_int s) (of_int M) = of_int k"
      "2 * (M - A) \<le> k" by auto
    then show ?thesis by simp
  qed
qed

lemma getAttenuation_profile:
  assumes "steps \<noteq> 0" "min_dB \<le> max_dB"
  shows "getAttenuation steps selStep min_dB max_dB =
     (let A = uint max_dB - uint min_dB; c = coarseStepSize A (unat steps);
          fine = fineStepCount c (uint steps) A
      in if c \<le> 4 \<and> fine \<le> of_int (uint steps) \<and> selStep \<le> steps
         then float_to_uint8
                (attenuation (of_int c) (fl fine) (of_int (uint selStep)) (of_int (uint max_dB)))
         else 223)"
proof -
  define A where "A = uint max_dB - uint min_dB"
  define c where "c = coarseStepSize A (unat steps)"
  have S0: "0 < unat steps" using assms(1) by (simp add: unat_gt_0)
  have A0: "0 \<le> A" using assms(2) by (simp add: A_def word_le_def)
  have A255: "A \<le> 255"
    unfolding A_def using u8_bounds(2)[of max_dB] u8_bounds(1)[of min_dB] by linarith
  have sz: "sizeOfLargeSteps A (unat steps) = Some c"
    unfolding c_def using S0 A0 by (rule sizeOfLargeSteps_coarseStepSize)
  have c1: "1 \<le> c" unfolding c_def using S0 A0 by (rule coarseStepSize_props)
  show ?thesis
  proof (cases "c \<le> 4")
    case True
    note sm = small_eq_fine[OF c1 True u8_bounds[of steps] A0 A255]
    note fe = feasible_iff[OF c1 True u8_bounds[of steps] A0 A255]
    show ?thesis
      using c1 True
      by (simp add: getAttenuation_def Let_def sz sm fe del: of_int_uint flip: A_def c_def)
  next
    case False
    then show ?thesis
      using c1 by (simp add: getAttenuation_def Let_def sz del: of_int_uint flip: A_def c_def)
  qed
qed

lemma profile_facts:
  fixes steps min_dB max_dB :: "8 word"
  assumes "steps \<noteq> 0" "min_dB \<le> max_dB"
    and "coarseStepSize (uint max_dB - uint min_dB) (unat steps) \<le> 4"
  shows "1 \<le> coarseStepSize (uint max_dB - uint min_dB) (unat steps)"
    and "uint max_dB - uint min_dB
         < coarseStepSize (uint max_dB - uint min_dB) (unat steps) * uint steps"
    and "0 \<le> uint max_dB - uint min_dB"
    and "uint max_dB - uint min_dB \<le> uint max_dB"
proof -
  define A where "A = uint max_dB - uint min_dB"
  have S0: "0 < unat steps" using assms(1) by (simp add: unat_gt_0)
  have A0: "0 \<le> A" using assms(2) by (simp add: A_def word_le_def)
  note p = coarseStepSize_props[OF S0 A0]
  show "1 \<le> coarseStepSize (uint max_dB - uint min_dB) (unat steps)"
    using p(1) by (simp add: A_def)
  have "int (nat A) < coarseStepSize A (unat steps) * int (unat steps)"
    using p(1) assms(3) p(3) unfolding A_def[symmetric] by (rule att_less)
  then show "uint max_dB - uint min_dB
         < coarseStepSize (uint max_dB - uint min_dB) (unat steps) * uint steps"
    using A0 by (simp add: A_def)
  show "0 \<le> uint max_dB - uint min_dB" using A0 by (simp add: A_def)
  show "uint max_dB - uint min_dB \<le> uint max_dB" using u8_bounds(1)[of min_dB] by linarith
qed

lemma feasible_code:
  assumes "steps \<noteq> 0" "min_dB \<le> max_dB" "uint max_dB \<le> 127" "selStep \<le> steps"
    and "coarseStepSize (uint max_dB - uint min_dB) (unat steps) \<le> 4"
    and "fineStepCount (coarseStepSize (uint max_dB - uint min_dB) (unat steps)) (uint steps)
           (uint max_dB - uint min_dB) \<le> of_int (uint steps)"
  shows "uint (getAttenuation steps selStep min_dB max_dB)
         = trunc (attenuation (of_int (coarseStepSize (uint max_dB - uint min_dB) (unat steps)))
             (fl (fineStepCount (coarseStepSize (uint max_dB - uint min_dB) (unat steps))
                   (uint steps) (uint max_dB - uint min_dB)))
             (of_int (uint selStep)) (of_int (uint max_dB)))"
    and "2 * uint min_dB - 1 \<le> uint (getAttenuation steps selStep min_dB max_dB)"
    and "uint (getAttenuation steps selStep min_dB max_dB) \<le> 2 * uint max_dB"
proof -
  define A where "A = uint max_dB - uint min_dB"
  define c where "c = coarseStepSize A (unat steps)"
  define fine where "fine = fineStepCount c (uint steps) A"
  define v where "v = attenuation (of_int c) (fl fine) (of_int (uint selStep)) (of_int (uint max_dB))"
  note pf = profile_facts[OF assms(1,2,5), folded A_def c_def]
  have c4: "c \<le> 4" using assms(5) by (simp add: A_def c_def)
  have fe: "fine \<le> of_int (uint steps)" using assms(6) by (simp add: A_def c_def fine_def)
  have sS: "uint selStep \<le> uint steps" using assms(4) by (simp add: word_le_def)
  have M: "uint max_dB \<le> 255" using assms(3) by simp
  note r = attenuation_range[OF pf(1) c4 pf(2) fe[unfolded fine_def] u8_bounds(1)[of selStep] sS
      u8_bounds(2)[of steps] pf(3) pf(4) M, folded fine_def, folded v_def]
  have ga: "getAttenuation steps selStep min_dB max_dB = float_to_uint8 v"
    using c4 fe assms(4)
    by (simp add: getAttenuation_profile[OF assms(1,2)] Let_def v_def fine_def c_def A_def
        del: of_int_uint)
  have "- 1 \<le> 2 * (uint max_dB - A) - 1" using pf(4) by simp
  then have "(of_int (- 1) :: rat) \<le> of_int (2 * (uint max_dB - A) - 1)"
    by (simp only: of_int_le_iff)
  then have "- 1 < v" using r(1) by simp
  then have t0: "0 \<le> trunc v" by (rule trunc_nonneg)
  have t2: "2 * uint min_dB - 1 \<le> trunc v"
    using trunc_above[OF r(1)] by (simp add: A_def)
  have "trunc v \<le> trunc (of_int (2 * uint max_dB))" using r(2) by (rule trunc_mono)
  then have t1: "trunc v \<le> 2 * uint max_dB" by (simp only: trunc_of_int)
  have u: "uint (getAttenuation steps selStep min_dB max_dB) = trunc v"
    unfolding ga float_to_uint8_def using t0 t1 assms(3) by (intro u8_of_int) linarith+
  show "uint (getAttenuation steps selStep min_dB max_dB)
         = trunc (attenuation (of_int (coarseStepSize (uint max_dB - uint min_dB) (unat steps)))
             (fl (fineStepCount (coarseStepSize (uint max_dB - uint min_dB) (unat steps))
                   (uint steps) (uint max_dB - uint min_dB)))
             (of_int (uint selStep)) (of_int (uint max_dB)))"
    using u unfolding v_def fine_def c_def A_def .
  show "2 * uint min_dB - 1 \<le> uint (getAttenuation steps selStep min_dB max_dB)"
    using u t2 by simp
  show "uint (getAttenuation steps selStep min_dB max_dB) \<le> 2 * uint max_dB"
    using u t1 by simp
qed

section \<open>Evaluating the model at concrete inputs\<close>

text \<open>
  Each rounding is evaluated by \<open>fl_eqI\<close> at its exponent, the size of the large steps by
  \<open>sizeOfLargeSteps_eqI\<close>.
\<close>

lemma floor_rat_numeral: "\<lfloor>(numeral a :: rat) / numeral b\<rfloor> = numeral a div numeral b"
  using floor_divide_of_int_eq[of "numeral a" "numeral b", where ?'a = rat] by simp

lemmas round_even_eval = round_even_def Let_def floor_rat_numeral

lemmas model_eval = numberOfSmallSteps_def attenuation_def fmul_def fsub_def fdiv_def fadd_def
  min_macro_def max_macro_def float_to_uint8_def trunc_def floor_rat_numeral fl_0 fl_minus

lemma ga_60_0: "getAttenuation 60 0 0 60 = 120"
proof -
  have sz: "sizeOfLargeSteps 60 60 = Some 2"
    by (rule sizeOfLargeSteps_eqI) simp_all
  have f1: "fl 120 = 120"
    using fl_eqI [of 6 "120"] by (simp add: round_even_eval)
  have f2: "fl 60 = 60"
    using fl_eqI [of 5 "60"] by (simp add: round_even_eval)
  have f3: "fl 1 = 1"
    using fl_eqI [of 0 "1"] by (simp add: round_even_eval)
  show ?thesis
    by (simp add: getAttenuation_def sz model_eval f1 f2 f3)
qed

lemma ga_60_60: "getAttenuation 60 60 0 60 = 0"
proof -
  have sz: "sizeOfLargeSteps 60 60 = Some 2"
    by (rule sizeOfLargeSteps_eqI) simp_all
  have f1: "fl 120 = 120"
    using fl_eqI [of 6 "120"] by (simp add: round_even_eval)
  have f2: "fl 60 = 60"
    using fl_eqI [of 5 "60"] by (simp add: round_even_eval)
  have f3: "fl 1 = 1"
    using fl_eqI [of 0 "1"] by (simp add: round_even_eval)
  show ?thesis
    by (simp add: getAttenuation_def sz model_eval f1 f2 f3)
qed

lemma ga_18_18: "getAttenuation 18 18 1 30 = 1"
proof -
  have sz: "sizeOfLargeSteps 29 18 = Some 3"
    by (rule sizeOfLargeSteps_eqI) simp_all
  have f1: "fl 54 = 54"
    using fl_eqI [of 5 "54"] by (simp add: round_even_eval)
  have f2: "fl 25 = 25"
    using fl_eqI [of 4 "25"] by (simp add: round_even_eval)
  have f3: "fl (3 / 2) = 3 / 2"
    using fl_eqI [of 0 "3 / 2"] by (simp add: round_even_eval)
  have f4: "fl (50 / 3) = 8738133 / 524288"
    using fl_eqI [of 4 "50 / 3"] by (simp add: round_even_eval)
  have f5: "fl (26214399 / 1048576) = 25"
    using fl_eqI [of 4 "26214399 / 1048576"] by (simp add: round_even_eval)
  have f6: "fl (699051 / 524288) = 699051 / 524288"
    using fl_eqI [of 0 "699051 / 524288"] by (simp add: round_even_eval)
  have f7: "fl (2097153 / 524288) = 2097153 / 524288"
    using fl_eqI [of 2 "2097153 / 524288"] by (simp add: round_even_eval)
  have f8: "fl (15204353 / 524288) = 15204353 / 524288"
    using fl_eqI [of 4 "15204353 / 524288"] by (simp add: round_even_eval)
  have f9: "fl (524287 / 524288) = 524287 / 524288"
    using fl_eqI [of "- 1" "524287 / 524288"] by (simp add: round_even_eval)
  have f10: "fl (524287 / 262144) = 524287 / 262144"
    using fl_eqI [of 0 "524287 / 262144"] by (simp add: round_even_eval)
  show ?thesis
    by (simp add: getAttenuation_def sz model_eval f1 f2 f3 f4 f5 f6 f7 f8 f9 f10)
qed

lemma ga_36_36: "getAttenuation 36 36 32 90 = 63"
proof -
  have sz: "sizeOfLargeSteps 58 36 = Some 3"
    by (rule sizeOfLargeSteps_eqI) simp_all
  have f1: "fl 108 = 108"
    using fl_eqI [of 6 "108"] by (simp add: round_even_eval)
  have f2: "fl 50 = 50"
    using fl_eqI [of 5 "50"] by (simp add: round_even_eval)
  have f3: "fl (3 / 2) = 3 / 2"
    using fl_eqI [of 0 "3 / 2"] by (simp add: round_even_eval)
  have f4: "fl (100 / 3) = 8738133 / 262144"
    using fl_eqI [of 5 "100 / 3"] by (simp add: round_even_eval)
  have f5: "fl (26214399 / 524288) = 50"
    using fl_eqI [of 5 "26214399 / 524288"] by (simp add: round_even_eval)
  have f6: "fl (699051 / 262144) = 699051 / 262144"
    using fl_eqI [of 1 "699051 / 262144"] by (simp add: round_even_eval)
  have f7: "fl (2097153 / 262144) = 2097153 / 262144"
    using fl_eqI [of 3 "2097153 / 262144"] by (simp add: round_even_eval)
  have f8: "fl (15204353 / 262144) = 15204353 / 262144"
    using fl_eqI [of 5 "15204353 / 262144"] by (simp add: round_even_eval)
  have f9: "fl (8388607 / 262144) = 8388607 / 262144"
    using fl_eqI [of 4 "8388607 / 262144"] by (simp add: round_even_eval)
  have f10: "fl (8388607 / 131072) = 8388607 / 131072"
    using fl_eqI [of 5 "8388607 / 131072"] by (simp add: round_even_eval)
  show ?thesis
    by (simp add: getAttenuation_def sz model_eval f1 f2 f3 f4 f5 f6 f7 f8 f9 f10)
qed

lemma ga_100_0: "getAttenuation 100 0 0 200 = 144"
proof -
  have sz: "sizeOfLargeSteps 200 100 = Some 4"
    by (rule sizeOfLargeSteps_eqI) simp_all
  have f1: "fl 400 = 400"
    using fl_eqI [of 8 "400"] by (simp add: round_even_eval)
  have f2: "fl 200 = 200"
    using fl_eqI [of 7 "200"] by (simp add: round_even_eval)
  have f3: "fl 2 = 2"
    using fl_eqI [of 1 "2"] by (simp add: round_even_eval)
  have f4: "fl 100 = 100"
    using fl_eqI [of 6 "100"] by (simp add: round_even_eval)
  show ?thesis
    by (simp add: getAttenuation_def sz model_eval f1 f2 f3 f4)
qed

lemma ga_100_50: "getAttenuation 100 50 0 200 = 200"
proof -
  have sz: "sizeOfLargeSteps 200 100 = Some 4"
    by (rule sizeOfLargeSteps_eqI) simp_all
  have f1: "fl 400 = 400"
    using fl_eqI [of 8 "400"] by (simp add: round_even_eval)
  have f2: "fl 200 = 200"
    using fl_eqI [of 7 "200"] by (simp add: round_even_eval)
  have f3: "fl 2 = 2"
    using fl_eqI [of 1 "2"] by (simp add: round_even_eval)
  have f4: "fl 100 = 100"
    using fl_eqI [of 6 "100"] by (simp add: round_even_eval)
  have f5: "fl 50 = 50"
    using fl_eqI [of 5 "50"] by (simp add: round_even_eval)
  show ?thesis
    by (simp add: getAttenuation_def sz model_eval f1 f2 f3 f4 f5)
qed

lemma ga_179_0: "getAttenuation 179 0 0 60 = 223"
proof -
  have sz: "sizeOfLargeSteps 60 179 = Some 1"
    by (rule sizeOfLargeSteps_eqI) simp_all
  have f1: "fl 179 = 179"
    using fl_eqI [of 7 "179"] by (simp add: round_even_eval)
  have f2: "fl 119 = 119"
    using fl_eqI [of 6 "119"] by (simp add: round_even_eval)
  have f3: "fl (1 / 2) = 1 / 2"
    using fl_eqI [of "- 1" "1 / 2"] by (simp add: round_even_eval)
  have f4: "fl 238 = 238"
    using fl_eqI [of 7 "238"] by (simp add: round_even_eval)
  show ?thesis
    by (simp add: getAttenuation_def sz model_eval f1 f2 f3 f4)
qed

lemma ga_10_10: "getAttenuation 10 10 0 21 = 0"
proof -
  have sz: "sizeOfLargeSteps 21 10 = Some 4"
    by (rule sizeOfLargeSteps_eqI) simp_all
  have f1: "fl 40 = 40"
    using fl_eqI [of 5 "40"] by (simp add: round_even_eval)
  have f2: "fl 19 = 19"
    using fl_eqI [of 4 "19"] by (simp add: round_even_eval)
  have f3: "fl 2 = 2"
    using fl_eqI [of 1 "2"] by (simp add: round_even_eval)
  have f4: "fl (19 / 2) = 19 / 2"
    using fl_eqI [of 3 "19 / 2"] by (simp add: round_even_eval)
  have f5: "fl (1 / 2) = 1 / 2"
    using fl_eqI [of "- 1" "1 / 2"] by (simp add: round_even_eval)
  have f6: "fl 21 = 21"
    using fl_eqI [of 4 "21"] by (simp add: round_even_eval)
  show ?thesis
    by (simp add: getAttenuation_def sz model_eval f1 f2 f3 f4 f5 f6)
qed

lemma ga_18_17: "getAttenuation 18 17 0 29 = 5"
proof -
  have sz: "sizeOfLargeSteps 29 18 = Some 3"
    by (rule sizeOfLargeSteps_eqI) simp_all
  have f1: "fl 54 = 54"
    using fl_eqI [of 5 "54"] by (simp add: round_even_eval)
  have f2: "fl 25 = 25"
    using fl_eqI [of 4 "25"] by (simp add: round_even_eval)
  have f3: "fl (3 / 2) = 3 / 2"
    using fl_eqI [of 0 "3 / 2"] by (simp add: round_even_eval)
  have f4: "fl (50 / 3) = 8738133 / 524288"
    using fl_eqI [of 4 "50 / 3"] by (simp add: round_even_eval)
  have f5: "fl (174763 / 524288) = 174763 / 524288"
    using fl_eqI [of "- 2" "174763 / 524288"] by (simp add: round_even_eval)
  have f6: "fl (26214399 / 1048576) = 25"
    using fl_eqI [of 4 "26214399 / 1048576"] by (simp add: round_even_eval)
  have f7: "fl (524289 / 524288) = 524289 / 524288"
    using fl_eqI [of 0 "524289 / 524288"] by (simp add: round_even_eval)
  have f8: "fl (13631489 / 524288) = 13631489 / 524288"
    using fl_eqI [of 4 "13631489 / 524288"] by (simp add: round_even_eval)
  have f9: "fl (1572863 / 524288) = 1572863 / 524288"
    using fl_eqI [of 1 "1572863 / 524288"] by (simp add: round_even_eval)
  have f10: "fl (1572863 / 262144) = 1572863 / 262144"
    using fl_eqI [of 2 "1572863 / 262144"] by (simp add: round_even_eval)
  show ?thesis
    by (simp add: getAttenuation_def sz model_eval f1 f2 f3 f4 f5 f6 f7 f8 f9 f10)
qed

text \<open>
  Outside the domain of the profile: a minimum above the maximum with a quotient of -54 gives
  a size of -1, and no steps with a range of 0 give the smallest \<^verbatim>\<open>long\<close>.
\<close>

lemma ga_1_0_neg: "getAttenuation 1 0 54 0 = 106"
proof -
  have sz: "sizeOfLargeSteps (- 54) (Suc 0) = Some (- 1)"
    by (simp add: sizeOfLargeSteps_def)
  have f1: "fl 1 = 1"
    using fl_eqI [of 0 "1"] by (simp add: round_even_eval)
  have f2: "fl 53 = 53"
    using fl_eqI [of 5 "53"] by (simp add: round_even_eval)
  have f3: "fl (1 / 2) = 1 / 2"
    using fl_eqI [of "- 1" "1 / 2"] by (simp add: round_even_eval)
  have f4: "fl 106 = 106"
    using fl_eqI [of 6 "106"] by (simp add: round_even_eval)
  show ?thesis
    by (simp add: getAttenuation_def sz model_eval f1 f2 f3 f4)
qed

lemma ga_0_0: "getAttenuation 0 0 7 7 = 14"
proof -
  have sz: "sizeOfLargeSteps 0 0 = Some (- 9223372036854775808)"
    by (simp add: sizeOfLargeSteps_def)
  have f1: "fl 4611686018427387904 = 4611686018427387904"
    using fl_eqI [of 62 "4611686018427387904"] by (simp add: round_even_eval)
  have f2: "fl 7 = 7"
    using fl_eqI [of 2 "7"] by (simp add: round_even_eval)
  have f3: "fl 14 = 14"
    using fl_eqI [of 3 "14"] by (simp add: round_even_eval)
  show ?thesis
    by (simp add: getAttenuation_def sz model_eval f1 f2 f3)
qed

lemma coarse_60_60: "coarseStepSize 60 60 = 2"
  by (rule coarseStepSize_eqI) simp_all

lemma coarse_29_18: "coarseStepSize 29 18 = 3"
  by (rule coarseStepSize_eqI) simp_all

lemma coarse_200_100: "coarseStepSize 200 100 = 4"
  by (rule coarseStepSize_eqI) simp_all

lemma coarse_60_179: "coarseStepSize 60 179 = 1"
  by (rule coarseStepSize_eqI) simp_all

lemma coarse_21_10: "coarseStepSize 21 10 = 4"
  by (rule coarseStepSize_eqI) simp_all

lemma coarse_58_36: "coarseStepSize 58 36 = 3"
  by (rule coarseStepSize_eqI) simp_all

section \<open>The feasible branch and the formula of the specification\<close>

lemma feasible_formula:
  assumes "steps \<noteq> 0" "min_dB < max_dB" "uint max_dB \<le> 127"
    and "fineStepCount (coarseStepSize (uint max_dB - uint min_dB) (unat steps)) (uint steps)
           (uint max_dB - uint min_dB) \<le> of_int (uint steps)"
    and "selStep \<le> steps"
    and "coarseStepSize (uint max_dB - uint min_dB) (unat steps) \<le> 4"
    and "coarseStepSize (uint max_dB - uint min_dB) (unat steps) \<noteq> 3
         \<or> of_int (uint selStep)
             \<le> fineStepCount (coarseStepSize (uint max_dB - uint min_dB) (unat steps))
                  (uint steps) (uint max_dB - uint min_dB)
         \<or> 3 dvd (uint max_dB - uint min_dB)"
  shows "of_int (uint (getAttenuation steps selStep min_dB max_dB))
         = spec_result (coarseStepSize (uint max_dB - uint min_dB) (unat steps))
             (fineStepCount (coarseStepSize (uint max_dB - uint min_dB) (unat steps))
                (uint steps) (uint max_dB - uint min_dB))
             (uint selStep) (uint max_dB)"
proof -
  define A where "A = uint max_dB - uint min_dB"
  define c where "c = coarseStepSize A (unat steps)"
  have le: "min_dB \<le> max_dB" using assms(2) by simp
  note pf = profile_facts[OF assms(1) le assms(6), folded A_def c_def]
  have sS: "uint selStep \<le> uint steps" using assms(5) by (simp add: word_le_def)
  have M: "uint max_dB \<le> 255" using assms(3) by simp
  note ex = attenuation_exact[OF pf(1) assms(6)[folded A_def c_def] pf(2)
      assms(4)[folded A_def c_def] u8_bounds(1)[of selStep] sS u8_bounds(2)[of steps] pf(3) pf(4) M
      assms(7)[folded A_def c_def]]
  from ex(2) obtain k where k: "spec_result c (fineStepCount c (uint steps) A) (uint selStep)
      (uint max_dB) = of_int k" by blast
  have "uint (getAttenuation steps selStep min_dB max_dB) = k"
    using feasible_code(1)[OF assms(1) le assms(3) assms(5) assms(6) assms(4)]
    unfolding A_def[symmetric] c_def[symmetric] ex(1) k by (simp only: trunc_of_int)
  then show ?thesis unfolding A_def[symmetric] c_def[symmetric] k by (simp only:)
qed

lemma feasible_top_step:
  assumes "steps \<noteq> 0" "min_dB < max_dB" "uint max_dB \<le> 127"
    and "coarseStepSize (uint max_dB - uint min_dB) (unat steps) \<le> 4"
    and "fineStepCount (coarseStepSize (uint max_dB - uint min_dB) (unat steps)) (uint steps)
           (uint max_dB - uint min_dB) \<le> of_int (uint steps)"
    and "coarseStepSize (uint max_dB - uint min_dB) (unat steps) \<noteq> 3
         \<or> 3 dvd (uint max_dB - uint min_dB)"
  shows "uint (getAttenuation steps steps min_dB max_dB) = 2 * uint min_dB"
proof -
  define A where "A = uint max_dB - uint min_dB"
  define c where "c = coarseStepSize A (unat steps)"
  define fine where "fine = fineStepCount c (uint steps) A"
  have le: "min_dB \<le> max_dB" using assms(2) by simp
  note pf = profile_facts[OF assms(1) le assms(4), folded A_def c_def]
  have fc: "fine * of_int c = of_int (2 * (c * uint steps - A))"
    unfolding fine_def using pf(1) by (intro fine_times_coarse) simp
  have "(of_int (uint (getAttenuation steps steps min_dB max_dB)) :: rat)
        = spec_result c fine (uint steps) (uint max_dB)"
    unfolding fine_def c_def A_def using assms(1,2,3,5) _ assms(4)
    by (rule feasible_formula) (use assms(6) in simp_all)
  also have "\<dots> = of_int (2 * uint min_dB)"
  proof (cases "of_int (uint steps) \<le> fine")
    case True
    then have eq: "fine = of_int (uint steps)"
      using assms(5) by (simp add: fine_def c_def A_def)
    have "(of_int (uint steps * c) :: rat) = of_int (2 * (c * uint steps - A))"
      using fc unfolding eq by (simp only: of_int_mult)
    then have "uint steps * c = 2 * (c * uint steps - A)" by (simp only: of_int_eq_iff)
    then have "2 * uint max_dB - uint steps * c = 2 * uint min_dB"
      by (simp add: A_def algebra_simps)
    then show ?thesis using spec_result_fine_part[OF True, of c "uint max_dB"] by (simp only:)
  next
    case False
    then have lt: "fine < of_int (uint steps)" by simp
    have "2 * (uint max_dB + (c * uint steps - A) - uint steps * c) = 2 * uint min_dB"
      by (simp add: A_def algebra_simps)
    then show ?thesis using spec_result_coarse_part[OF lt fc, of "uint max_dB"] by (simp only:)
  qed
  finally show ?thesis by (simp only: of_int_eq_iff)
qed

section \<open>The claims\<close>

text \<open>
  In the statements below \<open>coarseStepSize\<close>, \<open>fineStepCount\<close> and \<open>spec_result\<close> are the
  quantities of the specification; by \<open>sizeOfLargeSteps_coarseStepSize\<close> and
  \<open>small_eq_fine\<close> the variables of the code are \<open>coarseStepSize\<close> and the rounded
  \<open>fineStepCount\<close>.
\<close>

text \<open>
  C1. For a feasible profile and a selected step within range the function should return
  the value of the formula
  \<open>(max_dB - (min(selStep, fineStepCount) * (coarseStepSize / 2)
     + max(selStep - fineStepCount, 0) * coarseStepSize)) * 2\<close>.
  With 18 steps over 0..29 dB (large steps of 3 dB, \<open>50 / 3\<close> small steps) the formula
  gives 6 at step 17 and the function returns 5; with 18 steps over 1..30 dB the formula
  gives 2 at step 18 and the function returns 1. In both cases the number of small steps is
  rounded to \<open>8738133 / 524288\<close>, the expression of line 471 comes out just below the
  integer of the formula, and the conversion to \<^verbatim>\<open>uint8_t\<close> discards the fraction.
  By \<open>feasible_formula\<close> the function returns the value of the formula for every other
  kind of feasible input with a maximum attenuation of at most 127 dB: when the size of the
  large steps is not 3, when the selected step does not exceed the number of small steps,
  and when the range is divisible by 3.
\<close>

theorem formula_missed_by_truncation:
  "(18 :: 8 word) \<noteq> 0 \<and> (0 :: 8 word) < 29 \<and> (29 :: 8 word) \<le> 90
   \<and> coarseStepSize 29 18 \<le> 4 \<and> fineStepCount (coarseStepSize 29 18) 18 29 \<le> 18
   \<and> (17 :: 8 word) \<le> 18
   \<and> spec_result (coarseStepSize 29 18) (fineStepCount (coarseStepSize 29 18) 18 29) 17 29 = 6
   \<and> uint (getAttenuation 18 17 0 29) = 5
   \<and> (1 :: 8 word) < 30 \<and> (30 :: 8 word) \<le> 90 \<and> (18 :: 8 word) \<le> 18
   \<and> spec_result (coarseStepSize 29 18) (fineStepCount (coarseStepSize 29 18) 18 29) 18 30 = 2
   \<and> uint (getAttenuation 18 18 1 30) = 1"
  by (simp add: coarse_29_18 fineStepCount_def spec_result_def ga_18_17 ga_18_18)

text \<open>
  C2. Within the documented boundary (1 to 179 steps, maximum attenuation at most 90 dB and
  above the minimum), \<^verbatim>\<open>getAttenuation\<close> returns the sentinel 223 exactly when the
  number of small steps exceeds the number of steps, or the selected step exceeds the number
  of steps, or the size of the large steps exceeds 4.
\<close>

theorem mute_iff_infeasible:
  assumes "1 \<le> steps" "steps \<le> 179" "min_dB < max_dB" "max_dB \<le> 90"
  shows "getAttenuation steps selStep min_dB max_dB = 223 \<longleftrightarrow>
     (of_int (uint steps)
        < fineStepCount (coarseStepSize (uint max_dB - uint min_dB) (unat steps)) (uint steps)
            (uint max_dB - uint min_dB)
      \<or> steps < selStep
      \<or> 4 < coarseStepSize (uint max_dB - uint min_dB) (unat steps))"
proof -
  define A where "A = uint max_dB - uint min_dB"
  define c where "c = coarseStepSize A (unat steps)"
  define fine where "fine = fineStepCount c (uint steps) A"
  have s0: "steps \<noteq> 0" using assms(1) by auto
  have le: "min_dB \<le> max_dB" using assms(3) by simp
  have M: "uint max_dB \<le> 90" using assms(4) by (simp add: word_le_def)
  show ?thesis
  proof (cases "c \<le> 4 \<and> fine \<le> of_int (uint steps) \<and> selStep \<le> steps")
    case True
    have M': "uint max_dB \<le> 127" using M by simp
    have "uint (getAttenuation steps selStep min_dB max_dB) \<le> 2 * uint max_dB"
      using True by (intro feasible_code(3)[OF s0 le M']) (simp_all add: fine_def c_def A_def)
    then have "uint (getAttenuation steps selStep min_dB max_dB) \<noteq> uint (223 :: 8 word)"
      using M by simp
    then have "getAttenuation steps selStep min_dB max_dB \<noteq> 223" by auto
    then show ?thesis using True unfolding fine_def c_def A_def by (simp add: not_less)
  next
    case False
    have "getAttenuation steps selStep min_dB max_dB =
      (if c \<le> 4 \<and> fine \<le> of_int (uint steps) \<and> selStep \<le> steps
       then float_to_uint8
              (attenuation (of_int c) (fl fine) (of_int (uint selStep)) (of_int (uint max_dB)))
       else 223)"
      unfolding getAttenuation_profile[OF s0 le] Let_def fine_def c_def A_def ..
    then have "getAttenuation steps selStep min_dB max_dB = 223"
      using False by (simp only: if_False)
    then show ?thesis using False unfolding fine_def c_def A_def by (auto simp: not_le)
  qed
qed

theorem mute_iff_infeasible_witness:
  "(1 :: 8 word) \<le> 18 \<and> (18 :: 8 word) \<le> 179 \<and> (1 :: 8 word) < 30 \<and> (30 :: 8 word) \<le> 90
   \<and> \<not> (18 < fineStepCount (coarseStepSize 29 18) 18 29 \<or> (18 :: 8 word) < 18
          \<or> 4 < coarseStepSize 29 18)
   \<and> getAttenuation 18 18 1 30 \<noteq> 223"
  using mute_iff_infeasible[of 18 1 30 18] by (simp add: coarse_29_18 fineStepCount_def)

text \<open>
  C3. For a feasible profile whose maximum attenuation is at most 127 dB, the returned code
  does not increase with the selected step: for \<open>s1 \<le> s2 \<le> steps\<close> the code of \<open>s2\<close> is
  at most the code of \<open>s1\<close>.
\<close>

theorem getAttenuation_antimono_in_step:
  assumes "steps \<noteq> 0" "min_dB < max_dB" "uint max_dB \<le> 127"
    and "coarseStepSize (uint max_dB - uint min_dB) (unat steps) \<le> 4"
    and "fineStepCount (coarseStepSize (uint max_dB - uint min_dB) (unat steps)) (uint steps)
           (uint max_dB - uint min_dB) \<le> of_int (uint steps)"
    and "s1 \<le> s2" "s2 \<le> steps"
  shows "getAttenuation steps s2 min_dB max_dB \<le> getAttenuation steps s1 min_dB max_dB"
proof -
  have le: "min_dB \<le> max_dB" using assms(2) by simp
  have s1: "s1 \<le> steps" using assms(6,7) by simp
  note pf = profile_facts[OF assms(1) le assms(4)]
  have "(of_int (uint s1) :: rat) \<le> of_int (uint s2)"
    using assms(6) by (simp only: of_int_le_iff word_le_def)
  then have "attenuation (of_int (coarseStepSize (uint max_dB - uint min_dB) (unat steps)))
             (fl (fineStepCount (coarseStepSize (uint max_dB - uint min_dB) (unat steps))
                   (uint steps) (uint max_dB - uint min_dB)))
             (of_int (uint s2)) (of_int (uint max_dB))
        \<le> attenuation (of_int (coarseStepSize (uint max_dB - uint min_dB) (unat steps)))
             (fl (fineStepCount (coarseStepSize (uint max_dB - uint min_dB) (unat steps))
                   (uint steps) (uint max_dB - uint min_dB)))
             (of_int (uint s1)) (of_int (uint max_dB))"
    using pf(1) by (intro attenuation_antimono) simp_all
  then have "uint (getAttenuation steps s2 min_dB max_dB)
             \<le> uint (getAttenuation steps s1 min_dB max_dB)"
    unfolding feasible_code(1)[OF assms(1) le assms(3) assms(7) assms(4,5)]
      feasible_code(1)[OF assms(1) le assms(3) s1 assms(4,5)]
    by (rule trunc_mono)
  then show ?thesis by (simp only: word_le_def)
qed

theorem getAttenuation_antimono_in_step_witness:
  "(60 :: 8 word) \<noteq> 0 \<and> (0 :: 8 word) < 60 \<and> uint (60 :: 8 word) \<le> 127
   \<and> coarseStepSize 60 60 \<le> 4 \<and> fineStepCount (coarseStepSize 60 60) 60 60 \<le> 60
   \<and> (10 :: 8 word) \<le> 20 \<and> (20 :: 8 word) \<le> 60
   \<and> getAttenuation 60 20 0 60 \<le> getAttenuation 60 10 0 60"
  using getAttenuation_antimono_in_step[of 60 0 60 10 20]
  by (simp add: coarse_60_60 fineStepCount_def)

text \<open>
  Beyond 127 dB the conversion to \<^verbatim>\<open>uint8_t\<close> wraps: with 100 steps over 0..200 dB
  step 0 gives 144 and step 50 gives 200.
\<close>

theorem getAttenuation_antimono_in_step_counterexample:
  "(100 :: 8 word) \<noteq> 0 \<and> (0 :: 8 word) < 200
   \<and> coarseStepSize 200 100 \<le> 4 \<and> fineStepCount (coarseStepSize 200 100) 100 200 \<le> 100
   \<and> (0 :: 8 word) \<le> 50 \<and> (50 :: 8 word) \<le> 100
   \<and> \<not> getAttenuation 100 50 0 200 \<le> getAttenuation 100 0 0 200"
  by (simp add: coarse_200_100 fineStepCount_def ga_100_0 ga_100_50)

text \<open>
  C4. For a valid profile (maximum attenuation at most 90 dB) whose size of large steps is
  at most 4 and whose number of small steps does not exceed the number of steps, step 0 gives
  twice the maximum attenuation.
\<close>

theorem step_zero_max_attenuation:
  assumes "steps \<noteq> 0" "min_dB < max_dB" "max_dB \<le> 90"
    and "coarseStepSize (uint max_dB - uint min_dB) (unat steps) \<le> 4"
    and "fineStepCount (coarseStepSize (uint max_dB - uint min_dB) (unat steps)) (uint steps)
           (uint max_dB - uint min_dB) \<le> of_int (uint steps)"
  shows "uint (getAttenuation steps 0 min_dB max_dB) = 2 * uint max_dB"
proof -
  define A where "A = uint max_dB - uint min_dB"
  define c where "c = coarseStepSize A (unat steps)"
  have le: "min_dB \<le> max_dB" using assms(2) by simp
  have M: "uint max_dB \<le> 127" using assms(3) by (simp add: word_le_def)
  note pf = profile_facts[OF assms(1) le assms(4), folded A_def c_def]
  have "0 < fineStepCount c (uint steps) A" using pf(1,2) by (rule fine_pos)
  then have z: "of_int (uint (0 :: 8 word)) \<le> fineStepCount c (uint steps) A" by simp
  have "(of_int (uint (getAttenuation steps 0 min_dB max_dB)) :: rat)
        = spec_result c (fineStepCount c (uint steps) A) (uint (0 :: 8 word)) (uint max_dB)"
    unfolding A_def c_def using assms(1,2) M assms(5) _ assms(4)
    by (rule feasible_formula) (use z in \<open>simp_all add: A_def c_def\<close>)
  also have "\<dots> = of_int (2 * uint max_dB)"
    using spec_result_fine_part[OF z] by simp
  finally show ?thesis by (simp only: of_int_eq_iff)
qed

theorem step_zero_max_attenuation_witness:
  "(60 :: 8 word) \<noteq> 0 \<and> (0 :: 8 word) < 60 \<and> (60 :: 8 word) \<le> 90
   \<and> coarseStepSize 60 60 \<le> 4 \<and> fineStepCount (coarseStepSize 60 60) 60 60 \<le> 60
   \<and> uint (getAttenuation 60 0 0 60) = 2 * uint (60 :: 8 word)"
  using step_zero_max_attenuation[of 60 0 60] by (simp add: coarse_60_60 fineStepCount_def)

text \<open>
  The bound on the size of the large steps alone does not suffice: 179 steps over 0..60 dB
  have large steps of 1 dB and would need 238 small steps, and the function returns the
  sentinel 223, not 120.
\<close>

theorem step_zero_max_attenuation_counterexample:
  "(179 :: 8 word) \<noteq> 0 \<and> (0 :: 8 word) < 60 \<and> (60 :: 8 word) \<le> 90
   \<and> coarseStepSize 60 179 \<le> 4
   \<and> uint (getAttenuation 179 0 0 60) \<noteq> 2 * uint (60 :: 8 word)"
  by (simp add: coarse_60_179 ga_179_0)

text \<open>
  C5. For a feasible profile the top step should give twice the minimum attenuation. With
  18 steps over 1..30 dB (large steps of 3 dB, \<open>50 / 3\<close> small steps, rounded to
  \<open>8738133 / 524288\<close>) the expression of line 471 is \<open>2 - 2\<^sup>-\<^sup>1\<^sup>8\<close> at step 18, and
  the function returns 1, not 2; with 36 steps over 32..90 dB it returns 63, not 64. By
  \<open>feasible_top_step\<close> the top step gives twice the minimum attenuation for every other
  kind of feasible profile with a maximum attenuation of at most 127 dB: when the size of
  the large steps is not 3, and when the range is divisible by 3.
\<close>

theorem top_step_below_minimum:
  "(18 :: 8 word) \<noteq> 0 \<and> (1 :: 8 word) < 30 \<and> (30 :: 8 word) \<le> 90
   \<and> coarseStepSize 29 18 \<le> 4 \<and> fineStepCount (coarseStepSize 29 18) 18 29 \<le> 18
   \<and> getAttenuation 18 18 1 30 = 1
   \<and> uint (getAttenuation 18 18 1 30) \<noteq> 2 * uint (1 :: 8 word)
   \<and> (36 :: 8 word) \<noteq> 0 \<and> (32 :: 8 word) < 90 \<and> (90 :: 8 word) \<le> 90
   \<and> coarseStepSize 58 36 \<le> 4 \<and> fineStepCount (coarseStepSize 58 36) 36 58 \<le> 36
   \<and> getAttenuation 36 36 32 90 = 63
   \<and> uint (getAttenuation 36 36 32 90) \<noteq> 2 * uint (32 :: 8 word)"
  by (simp add: ga_18_18 ga_36_36 coarse_29_18 coarse_58_36 fineStepCount_def)

text \<open>
  C6. For a valid profile that passes the feasibility policy, the size of the large steps is
  an integer between 1 and 4, and the number of small steps is a positive rational number,
  at most the number of steps, whose product with the size of the large steps is an even
  integer; it is a whole number when the size is 1 or 2. The code computes its rounding to
  single precision.
\<close>

theorem derived_profile_bounds:
  fixes steps min_dB max_dB :: "8 word"
  assumes "steps \<noteq> 0" "min_dB < max_dB" "max_dB \<le> 90"
    and "coarseStepSize (uint max_dB - uint min_dB) (unat steps) \<le> 4"
    and "fineStepCount (coarseStepSize (uint max_dB - uint min_dB) (unat steps)) (uint steps)
           (uint max_dB - uint min_dB) \<le> of_int (uint steps)"
  shows "sizeOfLargeSteps (uint max_dB - uint min_dB) (unat steps)
           = Some (coarseStepSize (uint max_dB - uint min_dB) (unat steps))
       \<and> 1 \<le> coarseStepSize (uint max_dB - uint min_dB) (unat steps)
       \<and> numberOfSmallSteps (of_int (coarseStepSize (uint max_dB - uint min_dB) (unat steps)))
             (of_int (uint steps)) (of_int (uint max_dB - uint min_dB))
           = fl (fineStepCount (coarseStepSize (uint max_dB - uint min_dB) (unat steps))
                  (uint steps) (uint max_dB - uint min_dB))
       \<and> 0 < fineStepCount (coarseStepSize (uint max_dB - uint min_dB) (unat steps)) (uint steps)
             (uint max_dB - uint min_dB)
       \<and> fineStepCount (coarseStepSize (uint max_dB - uint min_dB) (unat steps)) (uint steps)
             (uint max_dB - uint min_dB) * of_int (coarseStepSize (uint max_dB - uint min_dB) (unat steps))
           = of_int (2 * (coarseStepSize (uint max_dB - uint min_dB) (unat steps) * uint steps
                          - (uint max_dB - uint min_dB)))
       \<and> (coarseStepSize (uint max_dB - uint min_dB) (unat steps) \<le> 2 \<longrightarrow>
            fineStepCount (coarseStepSize (uint max_dB - uint min_dB) (unat steps)) (uint steps)
              (uint max_dB - uint min_dB) \<in> \<int>)"
proof -
  define A where "A = uint max_dB - uint min_dB"
  define c where "c = coarseStepSize A (unat steps)"
  have le: "min_dB \<le> max_dB" using assms(2) by simp
  have S0: "0 < unat steps" using assms(1) by (simp add: unat_gt_0)
  note pf = profile_facts[OF assms(1) le assms(4), folded A_def c_def]
  have A255: "A \<le> 255" using pf(4) u8_bounds(2)[of max_dB] by linarith
  have 1: "sizeOfLargeSteps A (unat steps) = Some c"
    unfolding c_def using S0 pf(3) by (rule sizeOfLargeSteps_coarseStepSize)
  have 2: "numberOfSmallSteps (of_int c) (of_int (uint steps)) (of_int A)
           = fl (fineStepCount c (uint steps) A)"
    using pf(1) assms(4)[folded A_def c_def] u8_bounds[of steps] pf(3) A255 by (rule small_eq_fine)
  have 3: "0 < fineStepCount c (uint steps) A" using pf(1,2) by (rule fine_pos)
  have 4: "fineStepCount c (uint steps) A * of_int c = of_int (2 * (c * uint steps - A))"
    using pf(1) by (intro fine_times_coarse) simp
  have 5: "fineStepCount c (uint steps) A \<in> \<int>" if "c \<le> 2"
  proof -
    from that pf(1) consider "c = 1" | "c = 2" by linarith
    then show ?thesis
    proof cases
      case 1
      then have "fineStepCount c (uint steps) A = of_int (2 * (uint steps - A))"
        by (simp add: fineStepCount_def del: of_int_uint)
      then show ?thesis by (simp only: Ints_of_int)
    next
      case 2
      then have "fineStepCount c (uint steps) A = of_int (2 * uint steps - A)"
        by (simp add: fineStepCount_def del: of_int_uint)
      then show ?thesis by (simp only: Ints_of_int)
    qed
  qed
  show ?thesis
    unfolding A_def[symmetric] c_def[symmetric] using 1 pf(1) 2 3 4 5 by blast
qed

theorem derived_profile_bounds_witness:
  "(60 :: 8 word) \<noteq> 0 \<and> (0 :: 8 word) < 60 \<and> (60 :: 8 word) \<le> 90
   \<and> coarseStepSize 60 60 \<le> 4 \<and> fineStepCount (coarseStepSize 60 60) 60 60 \<le> 60
   \<and> coarseStepSize 60 60 \<le> 2
   \<and> sizeOfLargeSteps 60 60 = Some 2 \<and> numberOfSmallSteps 2 60 60 = fl 60
   \<and> fineStepCount 2 60 60 \<in> \<int>"
  using derived_profile_bounds[of 60 0 60] by (simp add: coarse_60_60 fineStepCount_def)

text \<open>
  With 10 steps over 0..21 dB the size of the large steps is 4, the profile is feasible, and
  the number of small steps is 9.5.
\<close>

theorem derived_profile_bounds_counterexample:
  "(10 :: 8 word) \<noteq> 0 \<and> (0 :: 8 word) < 21 \<and> (21 :: 8 word) \<le> 90
   \<and> coarseStepSize 21 10 \<le> 4 \<and> fineStepCount (coarseStepSize 21 10) 10 21 \<le> 10
   \<and> getAttenuation 10 10 0 21 \<noteq> 223
   \<and> fineStepCount (coarseStepSize 21 10) 10 21 = 19 / 2
   \<and> fineStepCount (coarseStepSize 21 10) 10 21 \<notin> \<int>"
proof -
  have "(19 / 2 :: rat) \<notin> \<int>"
  proof
    assume "(19 / 2 :: rat) \<in> \<int>"
    then obtain k :: int where "(19 / 2 :: rat) = of_int k" by (auto elim: Ints_cases)
    then have "(of_int 19 :: rat) = of_int (2 * k)" by simp
    then have "19 = 2 * k" by (simp only: of_int_eq_iff)
    then show False by presburger
  qed
  then show ?thesis
    by (simp add: coarse_21_10 fineStepCount_def ga_10_10)
qed

text \<open>
  C7. With the default profile of 60 steps over 0..60 dB, step 0 gives the code 120 and
  step 60 gives the code 0.
\<close>

theorem default_profile_scenario:
  "getAttenuation 60 0 0 60 = 120 \<and> getAttenuation 60 60 0 60 = 0"
  by (simp add: ga_60_0 ga_60_60)

text \<open>
  C9. With at least one step and a zero attenuation range the size of the large steps is 1,
  the number of small steps is twice the number of steps, which exceeds it, and
  \<^verbatim>\<open>getAttenuation\<close> returns the sentinel 223.
\<close>

theorem zero_range_mutes:
  assumes "steps \<noteq> 0"
  shows "sizeOfLargeSteps (uint m - uint m) (unat steps) = Some 1
       \<and> numberOfSmallSteps 1 (of_int (uint steps)) 0 = of_int (2 * uint steps)
       \<and> of_int (uint steps) < numberOfSmallSteps 1 (of_int (uint steps)) 0
       \<and> getAttenuation steps selStep m m = 223"
proof -
  have S0: "0 < unat steps" using assms by (simp add: unat_gt_0)
  have "uint steps \<noteq> 0" using assms by (simp add: uint_0_iff)
  then have Si: "0 < uint steps" using u8_bounds(1)[of steps] by linarith
  have "(1::int) < 2 ^ unat steps" using S0 by (intro one_less_power) simp_all
  then have sz: "sizeOfLargeSteps 0 (unat steps) = Some 1"
    using S0 by (intro sizeOfLargeSteps_eqI) simp_all
  have "numberOfSmallSteps (of_int 1) (of_int (uint steps)) (of_int 0)
        = fl (fineStepCount 1 (uint steps) 0)"
    using u8_bounds[of steps] by (intro small_eq_fine) simp_all
  moreover have "fineStepCount 1 (uint steps) 0 = of_int (2 * uint steps)"
    by (simp add: fineStepCount_def)
  moreover have "fl (of_int (2 * uint steps)) = of_int (2 * uint steps)"
    using u8_bounds[of steps] by (intro fl_int_small) linarith
  ultimately have sm: "numberOfSmallSteps 1 (of_int (uint steps)) 0 = of_int (2 * uint steps)"
    by simp
  have gt: "(of_int (uint steps) :: rat) < of_int (2 * uint steps)"
    using Si by (simp only: of_int_less_iff)
  have "getAttenuation steps selStep m m = 223"
    using gt by (simp add: getAttenuation_def sz sm del: of_int_uint of_int_mult)
  then show ?thesis using sz sm gt by (simp del: of_int_uint of_int_mult)
qed

theorem zero_range_mutes_witness:
  "(5 :: 8 word) \<noteq> 0 \<and> getAttenuation 5 3 7 7 = 223"
  using zero_range_mutes[of 5 7 3] by simp

text \<open>
  C10. The code of a feasible profile within the documented boundary should lie between
  twice the minimum and twice the maximum attenuation. With 36 steps over 32..90 dB (large
  steps of 3 dB, \<open>100 / 3\<close> small steps) the number of small steps is rounded to
  \<open>8738133 / 262144\<close>, the attenuation of step 36 comes out as \<open>64 - 2\<^sup>-\<^sup>1\<^sup>7\<close>, and the
  conversion to \<^verbatim>\<open>uint8_t\<close> discards the fraction: the code is 63, below \<open>2 * 32\<close>.
  In the same way 18 steps over 1..30 dB give the code 1 at step 18. The rest of the range
  holds: by \<open>feasible_code\<close> the code of a feasible profile is at most twice the maximum
  attenuation and at least twice the minimum attenuation less one.
\<close>

theorem code_below_range:
  "(36 :: 8 word) \<noteq> 0 \<and> (32 :: 8 word) < 90 \<and> (90 :: 8 word) \<le> 90 \<and> (36 :: 8 word) \<le> 36
   \<and> coarseStepSize 58 36 \<le> 4 \<and> fineStepCount (coarseStepSize 58 36) 36 58 \<le> 36
   \<and> uint (getAttenuation 36 36 32 90) = 63
   \<and> uint (getAttenuation 36 36 32 90) < 2 * uint (32 :: 8 word)
   \<and> coarseStepSize 29 18 \<le> 4 \<and> fineStepCount (coarseStepSize 29 18) 18 29 \<le> 18
   \<and> uint (getAttenuation 18 18 1 30) = 1
   \<and> uint (getAttenuation 18 18 1 30) < 2 * uint (1 :: 8 word)"
  by (simp add: ga_36_36 ga_18_18 coarse_58_36 coarse_29_18 fineStepCount_def)

end
